theory Spec2Isabelle
  imports Complex_Main "HOL-Library.Multiset"
begin

section \<open>The solver state\<close>

text \<open>
  \<^verbatim>\<open>SudokuSolver\<close> owns two numpy arrays and two counters. The arrays are modelled as
  nested lists read with \<open>!\<close> and written with \<open>xs[i := v]\<close>: \<open>sudoku\<close> is the 9x9 grid
  (0 is an empty cell) and \<open>bitmap\<close> is the 9x9x9 array of candidate flags, where
  \<open>bitmap ! i ! j ! (d - 1)\<close> says that digit \<open>d\<close> may still go into cell \<open>(i, j)\<close>.
  Every index the source uses comes from \<^verbatim>\<open>range(9)\<close> (or is a digit minus one); numpy
  raises IndexError outside the shape, which the shape predicate \<open>wf_solver\<close> and the range
  hypotheses of the theorems exclude. The callback and the timing fields are left out:
  the callback only receives copies of the grid, and nothing reads \<^verbatim>\<open>solve_time\<close>.
\<close>

type_synonym grid = "nat list list"
type_synonym candidates = "bool list list list"

record solver =
  bitmap :: candidates
  sudoku :: grid
  attempts :: nat
  backtrack_count :: nat

definition wf_grid :: "grid \<Rightarrow> bool" where
  "wf_grid g = (length g = 9 \<and> list_all (\<lambda>r. length r = 9) g)"

definition wf_bitmap :: "candidates \<Rightarrow> bool" where
  "wf_bitmap b = (length b = 9 \<and> list_all (\<lambda>r. length r = 9 \<and> list_all (\<lambda>c. length c = 9) r) b)"

definition wf_solver :: "solver \<Rightarrow> bool" where
  "wf_solver s = (wf_grid (sudoku s) \<and> wf_bitmap (bitmap s))"

text \<open>\<^verbatim>\<open>[(i, j) for i in range(9) for j in range(9)]\<close>, the row-major order of every scan.\<close>

definition all_cells :: "(nat \<times> nat) list" where
  "all_cells = concat (map (\<lambda>i. map (\<lambda>j. (i, j)) [0..<9]) [0..<9])"

text \<open>Two cells share a unit when they lie in the same row, column or 3x3 box.\<close>

definition shares_unit :: "nat \<times> nat \<Rightarrow> nat \<times> nat \<Rightarrow> bool" where
  "shares_unit p q =
     (fst p = fst q \<or> snd p = snd q \<or> (fst p div 3 = fst q div 3 \<and> snd p div 3 = snd q div 3))"

section \<open>Placement\<close>

text \<open>\<^verbatim>\<open>self.bitmap[i][j][d] = False\<close>\<close>

definition clear_flag :: "candidates \<Rightarrow> nat \<Rightarrow> nat \<Rightarrow> nat \<Rightarrow> candidates" where
  "clear_flag b i j d = b[i := (b ! i)[j := (b ! i ! j)[d := False]]]"

text \<open>
  \<^verbatim>\<open>place_number\<close>: write the digit, clear the cell's own flags, then clear the digit's flag
  along the row and the column (one loop over \<open>k\<close>) and in the 3x3 box (loops over \<open>k\<close>, \<open>l\<close>).
\<close>

definition place_number :: "solver \<Rightarrow> nat \<Rightarrow> nat \<Rightarrow> nat \<Rightarrow> solver" where
  "place_number s i j number =
     (let sud = (sudoku s)[i := (sudoku s ! i)[j := number]];
          b0 = (bitmap s)[i := (bitmap s ! i)[j := replicate 9 False]];
          b1 = fold (\<lambda>k b. clear_flag (clear_flag b i k (number - 1)) k j (number - 1)) [0..<9] b0;
          b2 = fold (\<lambda>k b. fold (\<lambda>l b. clear_flag b (i div 3 * 3 + k) (j div 3 * 3 + l) (number - 1))
                                  [0..<3] b) [0..<3] b1
      in s\<lparr>sudoku := sud, bitmap := b2\<rparr>)"

text \<open>\<^verbatim>\<open>can_place_number\<close>: \<^verbatim>\<open>self.bitmap[i][j][number-1]\<close>\<close>

definition can_place_number :: "solver \<Rightarrow> nat \<Rightarrow> nat \<Rightarrow> nat \<Rightarrow> bool" where
  "can_place_number s i j number = bitmap s ! i ! j ! (number - 1)"

text \<open>\<^verbatim>\<open>np.sum\<close> of a boolean vector: the number of flags that are set.\<close>

definition count_true :: "bool list \<Rightarrow> nat" where
  "count_true bs = length (filter (\<lambda>b. b) bs)"

text \<open>\<^verbatim>\<open>np.argmax\<close> of a boolean vector: the index of the first set flag, 0 when none is set.\<close>

fun argmax_bool :: "bool list \<Rightarrow> nat" where
  "argmax_bool [] = 0"
| "argmax_bool (b # bs) = (if b then 0 else if True \<in> set bs then Suc (argmax_bool bs) else 0)"

definition is_trivial_cell :: "solver \<Rightarrow> nat \<Rightarrow> nat \<Rightarrow> bool" where
  "is_trivial_cell s i j = (sudoku s ! i ! j = 0 \<and> count_true (bitmap s ! i ! j) = 1)"

text \<open>\<^verbatim>\<open>np.sum(self.sudoku == 0)\<close>: the number of empty cells.\<close>

definition empty_count :: "grid \<Rightarrow> nat" where
  "empty_count g = length (filter (\<lambda>x. x = 0) (concat g))"

definition is_solved :: "solver \<Rightarrow> bool" where
  "is_solved s = (empty_count (sudoku s) = 0)"

section \<open>Constraint propagation\<close>

text \<open>
  One pass of the two nested \<^verbatim>\<open>for\<close> loops of \<^verbatim>\<open>trivial_moves\<close>, threading the flag
  \<^verbatim>\<open>changed\<close> and the solver; each cell is tested on the state left by the cells before it.
\<close>

definition trivial_cell_step :: "nat \<times> nat \<Rightarrow> bool \<times> solver \<Rightarrow> bool \<times> solver" where
  "trivial_cell_step c cs =
     (case c of (i, j) \<Rightarrow> case cs of (changed, s) \<Rightarrow>
        if is_trivial_cell s i j
        then (True, place_number s i j (argmax_bool (bitmap s ! i ! j) + 1))
        else (changed, s))"

definition trivial_pass :: "solver \<Rightarrow> bool \<times> solver" where
  "trivial_pass s = fold trivial_cell_step all_cells (False, s)"

text \<open>
  The \<^verbatim>\<open>while changed\<close> loop. Nothing in its text bounds the number of passes, so it is a
  partial function: \<open>None\<close> stands for a loop that never leaves.
\<close>

partial_function (option) trivial_moves :: "solver \<Rightarrow> solver option" where
  "trivial_moves s =
     (case trivial_pass s of (changed, s') \<Rightarrow> if changed then trivial_moves s' else Some s')"

declare trivial_moves.simps [code]

section \<open>Heuristics\<close>

text \<open>\<^verbatim>\<open>self.sudoku[:, j]\<close> and \<^verbatim>\<open>self.sudoku[bi:bi+3, bj:bj+3]\<close> (flattened).\<close>

definition column :: "grid \<Rightarrow> nat \<Rightarrow> nat list" where
  "column g j = map (\<lambda>r. r ! j) g"

definition box :: "grid \<Rightarrow> nat \<Rightarrow> nat \<Rightarrow> nat list" where
  "box g bi bj = concat (map (\<lambda>r. take 3 (drop bj r)) (take 3 (drop bi g)))"

definition count_nonzero :: "nat list \<Rightarrow> nat" where
  "count_nonzero xs = length (filter (\<lambda>x. x \<noteq> 0) xs)"

text \<open>
  The impact score of an empty cell. The source divides two small integers in floating
  point and compares the quotients; the numerators are at most 27 and the denominators at
  most 10, so distinct quotients differ by at least 1/90 and the comparison of the doubles
  is the comparison of the exact fractions.
\<close>

definition impact_score :: "solver \<Rightarrow> nat \<Rightarrow> nat \<Rightarrow> rat" where
  "impact_score s i j =
     (let options_count = count_true (bitmap s ! i ! j);
          row_empty = 9 - count_nonzero (sudoku s ! i);
          col_empty = 9 - count_nonzero (column (sudoku s) j);
          box_empty = 9 - count_nonzero (box (sudoku s) (i div 3 * 3) (j div 3 * 3))
      in of_nat (row_empty + col_empty + box_empty) / of_nat (options_count + 1))"

text \<open>The flattened impact matrix after the mask: \<open>-1\<close> at every filled cell.\<close>

definition impact_matrix :: "solver \<Rightarrow> rat list" where
  "impact_matrix s = map (\<lambda>(i, j). if sudoku s ! i ! j = 0 then impact_score s i j else - 1) all_cells"

text \<open>\<^verbatim>\<open>np.argmax\<close> of a flat array: the first index that holds the maximum.\<close>

fun argmax_from :: "rat list \<Rightarrow> nat \<Rightarrow> nat \<Rightarrow> rat \<Rightarrow> nat" where
  "argmax_from [] k best bv = best"
| "argmax_from (x # xs) k best bv =
     (if bv < x then argmax_from xs (Suc k) k x else argmax_from xs (Suc k) best bv)"

definition argmax :: "rat list \<Rightarrow> nat" where
  "argmax xs = (case xs of [] \<Rightarrow> 0 | x # ys \<Rightarrow> argmax_from ys 1 0 x)"

text \<open>
  \<^verbatim>\<open>advanced_least_options_cell\<close>; \<open>None\<close> is the \<^verbatim>\<open>ValueError\<close> raised when no cell is
  empty. \<^verbatim>\<open>np.unravel_index\<close> turns the flat index \<open>k\<close> into \<open>(k div 9, k mod 9)\<close>.
\<close>

definition advanced_least_options_cell :: "solver \<Rightarrow> (nat \<times> nat) option" where
  "advanced_least_options_cell s =
     (if \<not> list_ex (\<lambda>x. x = 0) (concat (sudoku s)) then None
      else let k = argmax (impact_matrix s) in Some (k div 9, k mod 9))"

text \<open>
  \<^verbatim>\<open>smart_number_ordering\<close>: the available digits of the cell, sorted (stably, as Python's
  \<^verbatim>\<open>sorted\<close>) by the key \<^verbatim>\<open>-(row_freq + col_freq + box_freq)\<close>.
\<close>

definition number_frequency :: "solver \<Rightarrow> nat \<Rightarrow> nat \<Rightarrow> nat \<Rightarrow> nat" where
  "number_frequency s i j number =
     (let row_freq = length (filter (\<lambda>x. x = number) (sudoku s ! i));
          col_freq = length (filter (\<lambda>x. x = number) (column (sudoku s) j));
          box_freq = length (filter (\<lambda>x. x = number) (box (sudoku s) (i div 3 * 3) (j div 3 * 3)))
      in row_freq + col_freq + box_freq)"

definition number_frequency_score :: "solver \<Rightarrow> nat \<Rightarrow> nat \<Rightarrow> nat \<Rightarrow> int" where
  "number_frequency_score s i j number = - int (number_frequency s i j number)"

definition possible_numbers :: "solver \<Rightarrow> nat \<Rightarrow> nat \<Rightarrow> nat list" where
  "possible_numbers s i j = map (\<lambda>num. num + 1) (filter (\<lambda>num. bitmap s ! i ! j ! num) [0..<9])"

definition smart_number_ordering :: "solver \<Rightarrow> nat \<Rightarrow> nat \<Rightarrow> nat list" where
  "smart_number_ordering s i j = sort_key (number_frequency_score s i j) (possible_numbers s i j)"

section \<open>Backtracking search\<close>

text \<open>
  \<^verbatim>\<open>advanced_backtrack\<close> calls itself inside its \<^verbatim>\<open>for\<close> loop. A frame is either the entry
  of a call (\<open>Enter\<close>) or the loop of a call at cell \<open>(i, j)\<close> with the digits still to try
  (\<open>Try\<close>); the solver in a \<open>Try\<close> frame is the state at the head of the loop body, that
  is the snapshot taken there. The result is \<open>None\<close> when the search does not return,
  and otherwise the returned value (\<open>Some grid\<close>, or \<open>None\<close> for Python's \<^verbatim>\<open>None\<close>)
  with the solver as the call leaves it.
\<close>

datatype frame = Enter solver | Try solver nat nat "nat list"

partial_function (option) backtrack_frames :: "frame \<Rightarrow> (grid option \<times> solver) option" where
  "backtrack_frames f =
     (case f of
        Enter s \<Rightarrow>
          if is_solved s then Some (Some (sudoku s), s)
          else (case advanced_least_options_cell s of
                  None \<Rightarrow> Some (None, s)
                | Some (i, j) \<Rightarrow> backtrack_frames (Try s i j (smart_number_ordering s i j)))
      | Try s i j [] \<Rightarrow> Some (None, s)
      | Try s i j (number # numbers) \<Rightarrow>
          if can_place_number s i j number
          then Option.bind (trivial_moves (place_number s i j number)) (\<lambda>s1.
                 Option.bind (backtrack_frames (Enter s1)) (\<lambda>(result, s2).
                   case result of
                     Some g \<Rightarrow> Some (Some g, s2)
                   | None \<Rightarrow>
                       backtrack_frames
                         (Try (s2\<lparr>backtrack_count := backtrack_count s2 + 1,
                                  bitmap := bitmap s, sudoku := sudoku s\<rparr>) i j numbers)))
          else backtrack_frames (Try s i j numbers))"

declare backtrack_frames.simps [code]

definition advanced_backtrack :: "solver \<Rightarrow> (grid option \<times> solver) option" where
  "advanced_backtrack s = backtrack_frames (Enter s)"

text \<open>
  \<^verbatim>\<open>advanced_backtrack_visualize\<close>: the same search, which first adds one to
  \<^verbatim>\<open>attempts\<close>. Its callbacks receive copies of the grid and the counters and its
  \<^verbatim>\<open>time.sleep\<close> only waits, so neither changes the solver and both are left out.
\<close>

partial_function (option) visualize_frames :: "frame \<Rightarrow> (grid option \<times> solver) option" where
  "visualize_frames f =
     (case f of
        Enter s0 \<Rightarrow>
          (let s = s0\<lparr>attempts := attempts s0 + 1\<rparr> in
           if is_solved s then Some (Some (sudoku s), s)
           else (case advanced_least_options_cell s of
                   None \<Rightarrow> Some (None, s)
                 | Some (i, j) \<Rightarrow> visualize_frames (Try s i j (smart_number_ordering s i j))))
      | Try s i j [] \<Rightarrow> Some (None, s)
      | Try s i j (number # numbers) \<Rightarrow>
          if can_place_number s i j number
          then Option.bind (trivial_moves (place_number s i j number)) (\<lambda>s1.
                 Option.bind (visualize_frames (Enter s1)) (\<lambda>(result, s2).
                   case result of
                     Some g \<Rightarrow> Some (Some g, s2)
                   | None \<Rightarrow>
                       visualize_frames
                         (Try (s2\<lparr>backtrack_count := backtrack_count s2 + 1,
                                  bitmap := bitmap s, sudoku := sudoku s\<rparr>) i j numbers)))
          else visualize_frames (Try s i j numbers))"

declare visualize_frames.simps [code]

definition advanced_backtrack_visualize :: "solver \<Rightarrow> (grid option \<times> solver) option" where
  "advanced_backtrack_visualize s = visualize_frames (Enter s)"

text \<open>\<^verbatim>\<open>solve_with_visualization\<close>: reset both counters, then run one of the two searches.\<close>

definition solve_with_visualization :: "bool \<Rightarrow> solver \<Rightarrow> (grid option \<times> solver) option" where
  "solve_with_visualization visualize s =
     (let s0 = s\<lparr>attempts := 0, backtrack_count := 0\<rparr>
      in if visualize then advanced_backtrack_visualize s0 else advanced_backtrack s0)"

section \<open>Construction\<close>

text \<open>
  \<^verbatim>\<open>__init__\<close>: fresh arrays (all flags set, all cells empty), then every nonzero clue
  of the argument is placed in row-major order. The argument is only read.
\<close>

definition fresh_solver :: solver where
  "fresh_solver =
     \<lparr>bitmap = replicate 9 (replicate 9 (replicate 9 True)),
      sudoku = replicate 9 (replicate 9 0), attempts = 0, backtrack_count = 0\<rparr>"

definition place_clue :: "grid \<Rightarrow> nat \<times> nat \<Rightarrow> solver \<Rightarrow> solver" where
  "place_clue g c s = (case c of (i, j) \<Rightarrow> if g ! i ! j \<noteq> 0 then place_number s i j (g ! i ! j) else s)"

definition SudokuSolver :: "grid \<Rightarrow> solver" where
  "SudokuSolver g = fold (place_clue g) all_cells fresh_solver"

section \<open>Puzzle generation\<close>

text \<open>
  \<^verbatim>\<open>difficulty_settings.get(difficulty, (0.5, 40))\<close>. The removal fractions are kept as
  exact rationals: the products \<^verbatim>\<open>81 * 0.3\<close>, \<^verbatim>\<open>81 * 0.5\<close>, \<^verbatim>\<open>81 * 0.7\<close> and
  \<^verbatim>\<open>81 * 0.8\<close> are 24.3, 40.5, 56.7 and 64.8 up to one rounding of a double, far from
  an integer, so \<^verbatim>\<open>int(...)\<close> truncates the double to the floor of the exact product.
\<close>

definition difficulty_settings :: "(string \<times> rat \<times> nat) list" where
  "difficulty_settings =
     [(''easy'', 3 / 10, 30), (''medium'', 1 / 2, 40), (''hard'', 7 / 10, 50), (''expert'', 4 / 5, 60)]"

definition get_settings :: "string \<Rightarrow> rat \<times> nat" where
  "get_settings difficulty =
     (case map_of difficulty_settings difficulty of None \<Rightarrow> (1 / 2, 40) | Some p \<Rightarrow> p)"

text \<open>\<^verbatim>\<open>remove_count = int(81 * diff_param)\<close>\<close>

definition remove_count :: "rat \<Rightarrow> nat" where
  "remove_count diff_param = nat \<lfloor>81 * diff_param\<rfloor>"

text \<open>\<^verbatim>\<open>for i, j in cells[:remove_count]: puzzle[i][j] = 0\<close>\<close>

definition remove_cells :: "grid \<Rightarrow> (nat \<times> nat) list \<Rightarrow> grid" where
  "remove_cells puzzle cells = fold (\<lambda>(i, j) p. p[i := (p ! i)[j := 0]]) cells puzzle"

text \<open>The exception raised when the loop of \<^verbatim>\<open>generate_puzzle\<close> runs out of attempts.\<close>

datatype error = GenerationFailed

text \<open>
  One pass through the body of the \<^verbatim>\<open>while\<close> loop, for the outcome \<open>cells\<close> of
  \<^verbatim>\<open>random.shuffle\<close>: the reduced puzzle and whether the test solver found a solution.
  The result of the first solve is not looked at; the puzzle is a copy of the grid the
  first solver is left with. \<open>None\<close> is a solve that does not return.
\<close>

definition generation_attempt :: "rat \<Rightarrow> (nat \<times> nat) list \<Rightarrow> (grid \<times> bool) option" where
  "generation_attempt diff_param cells =
     (case solve_with_visualization False (SudokuSolver (replicate 9 (replicate 9 0))) of
        None \<Rightarrow> None
      | Some (first_result, solver) \<Rightarrow>
          (let puzzle = remove_cells (sudoku solver) (take (remove_count diff_param) cells)
           in case solve_with_visualization False (SudokuSolver puzzle) of
                None \<Rightarrow> None
              | Some (result, test_solver) \<Rightarrow> Some (puzzle, result \<noteq> None)))"

text \<open>
  The \<^verbatim>\<open>while attempts < max_attempts\<close> loop. The random source is the argument
  \<open>shuffled\<close>: the order \<^verbatim>\<open>random.shuffle\<close> leaves the 81 cells in during each pass;
  \<open>tried\<close> is the local counter \<^verbatim>\<open>attempts\<close>.
\<close>

function generate_loop ::
  "rat \<Rightarrow> nat \<Rightarrow> (nat \<Rightarrow> (nat \<times> nat) list) \<Rightarrow> nat \<Rightarrow> (error + grid) option" where
  "generate_loop diff_param max_attempts shuffled tried =
     (if tried < max_attempts
      then (case generation_attempt diff_param (shuffled tried) of
              None \<Rightarrow> None
            | Some (puzzle, accepted) \<Rightarrow>
                if accepted then Some (Inr puzzle)
                else generate_loop diff_param max_attempts shuffled (tried + 1))
      else Some (Inl GenerationFailed))"
  by pat_completeness auto
termination
  by (relation "measure (\<lambda>(d, m, sh, a). m - a)") auto

definition generate_puzzle :: "string \<Rightarrow> (nat \<Rightarrow> (nat \<times> nat) list) \<Rightarrow> (error + grid) option" where
  "generate_puzzle difficulty shuffled =
     (case get_settings difficulty of (diff_param, max_attempts) \<Rightarrow>
        generate_loop diff_param max_attempts shuffled 0)"

section \<open>Properties of grids and solver states\<close>

text \<open>
  No filled cell has its digit repeated in another cell of its row, column or box.
\<close>

definition no_conflict :: "grid \<Rightarrow> bool" where
  "no_conflict g =
     list_all (\<lambda>p. list_all (\<lambda>q. g ! fst p ! snd p = 0 \<or> p = q \<or> \<not> shares_unit p q \<or>
                                    g ! fst q ! snd q \<noteq> g ! fst p ! snd p) all_cells) all_cells"

text \<open>The precondition on the clues: a 9x9 grid of entries 0..9 without a conflict.\<close>

definition valid_clues :: "grid \<Rightarrow> bool" where
  "valid_clues g = (wf_grid g \<and> list_all (list_all (\<lambda>x. x \<le> 9)) g \<and> no_conflict g)"

text \<open>
  The states the engine passes through while it works on the clues \<open>g\<close>: the constructed
  solver, a reset or an increment of the counters, a placement guarded by
  \<^verbatim>\<open>can_place_number\<close>, a forced placement of \<^verbatim>\<open>trivial_moves\<close>, and the restore of a
  snapshot of an earlier state.
\<close>

inductive engine_state :: "grid \<Rightarrow> solver \<Rightarrow> bool" for g :: grid where
  constructed: "engine_state g (SudokuSolver g)"
| counters: "engine_state g s \<Longrightarrow> engine_state g (s\<lparr>attempts := a, backtrack_count := b\<rparr>)"
| speculative:
    "engine_state g s \<Longrightarrow> i < 9 \<Longrightarrow> j < 9 \<Longrightarrow> 1 \<le> number \<Longrightarrow> number \<le> 9 \<Longrightarrow>
     can_place_number s i j number \<Longrightarrow> engine_state g (place_number s i j number)"
| forced:
    "engine_state g s \<Longrightarrow> i < 9 \<Longrightarrow> j < 9 \<Longrightarrow> is_trivial_cell s i j \<Longrightarrow>
     engine_state g (place_number s i j (argmax_bool (bitmap s ! i ! j) + 1))"
| restored:
    "engine_state g s \<Longrightarrow> engine_state g s2 \<Longrightarrow>
     engine_state g (s2\<lparr>bitmap := bitmap s, sudoku := sudoku s\<rparr>)"

text \<open>A completed grid: every row, column and box holds exactly the digits 1..9.\<close>

definition box_corners :: "(nat \<times> nat) list" where
  "box_corners = concat (map (\<lambda>bi. map (\<lambda>bj. (bi, bj)) [0, 3, 6]) [0, 3, 6])"

definition complete_grid :: "grid \<Rightarrow> bool" where
  "complete_grid g =
     (list_all (\<lambda>i. set (g ! i) = {1..9}) [0..<9] \<and>
      list_all (\<lambda>j. set (column g j) = {1..9}) [0..<9] \<and>
      list_all (\<lambda>(bi, bj). set (box g bi bj) = {1..9}) box_corners)"

section \<open>Notions used in the proofs\<close>

text \<open>The number of candidate flags still set: the measure of the search.\<close>

definition flag_count :: "solver \<Rightarrow> nat" where
  "flag_count s = card {(a, c, e). a < 9 \<and> c < 9 \<and> e < 9 \<and> bitmap s ! a ! c ! e}"

text \<open>One forced placement, as the body of the loops of \<^verbatim>\<open>trivial_moves\<close> performs it.\<close>

definition forced_step :: "solver \<Rightarrow> solver \<Rightarrow> bool" where
  "forced_step s s' =
     (\<exists>i<9. \<exists>j<9. is_trivial_cell s i j \<and>
        s' = place_number s i j (argmax_bool (bitmap s ! i ! j) + 1))"

text \<open>
  The invariant of the data model: the arrays have their shape, the entries are digits,
  a flag is set exactly when its cell is empty and no cell sharing a unit with it holds the
  digit, and no digit is repeated in a unit.
\<close>

definition consistent :: "solver \<Rightarrow> bool" where
  "consistent s =
     (wf_solver s \<and>
      (\<forall>a<9. \<forall>c<9. sudoku s ! a ! c \<le> 9) \<and>
      (\<forall>a<9. \<forall>c<9. \<forall>e<9. bitmap s ! a ! c ! e =
         (sudoku s ! a ! c = 0 \<and>
          \<not> (\<exists>p<9. \<exists>q<9. shares_unit (p, q) (a, c) \<and> sudoku s ! p ! q = e + 1))) \<and>
      no_conflict (sudoku s))"

text \<open>A solution, and a solution that agrees with every filled cell of a grid.\<close>

definition solution :: "grid \<Rightarrow> bool" where
  "solution G = (wf_grid G \<and> list_all (list_all (\<lambda>x. 1 \<le> x \<and> x \<le> 9)) G \<and> no_conflict G)"

definition extends :: "grid \<Rightarrow> grid \<Rightarrow> bool" where
  "extends G g = list_all (\<lambda>(a, c). g ! a ! c = 0 \<or> G ! a ! c = g ! a ! c) all_cells"

text \<open>The solver of a frame, and the ranges of the cell and of the digits of a loop frame.\<close>

fun frame_solver :: "frame \<Rightarrow> solver" where
  "frame_solver (Enter s) = s"
| "frame_solver (Try s i j numbers) = s"

fun frame_ok :: "frame \<Rightarrow> bool" where
  "frame_ok (Enter s) = True"
| "frame_ok (Try s i j numbers) = (i < 9 \<and> j < 9 \<and> list_all (\<lambda>n. 1 \<le> n \<and> n \<le> 9) numbers)"

text \<open>The solution \<open>G\<close> is still within reach of a frame: it extends the grid of the frame,
  and in a loop frame the cell is empty and the digit of \<open>G\<close> is among those still to try.\<close>

fun frame_reaches :: "grid \<Rightarrow> frame \<Rightarrow> bool" where
  "frame_reaches G (Enter s) = extends G (sudoku s)"
| "frame_reaches G (Try s i j numbers) =
     (extends G (sudoku s) \<and> sudoku s ! i ! j = 0 \<and> G ! i ! j \<in> set numbers)"

section \<open>Example grids\<close>

text \<open>A grid whose first row lacks only its last digit: cell (0, 8) is forced to 9.\<close>

definition row0 :: grid where
  "row0 = [1, 2, 3, 4, 5, 6, 7, 8, 0] # replicate 8 (replicate 9 0)"

text \<open>A completed grid, used to show that the empty grid has a solution.\<close>

definition solved_example :: grid where
  "solved_example =
     [[1, 4, 7, 2, 5, 8, 3, 6, 9], [2, 6, 8, 3, 7, 9, 1, 4, 5], [3, 5, 9, 1, 6, 4, 2, 7, 8],
      [4, 7, 1, 6, 8, 2, 5, 9, 3], [8, 2, 6, 9, 3, 5, 7, 1, 4], [9, 3, 5, 7, 4, 1, 8, 2, 6],
      [5, 9, 2, 8, 1, 6, 4, 3, 7], [6, 8, 3, 4, 2, 7, 9, 5, 1], [7, 1, 4, 5, 9, 3, 6, 8, 2]]"

lemma wf_bitmap_lengths:
  "wf_bitmap b \<Longrightarrow> length b = 9"
  "wf_bitmap b \<Longrightarrow> i < 9 \<Longrightarrow> length (b ! i) = 9"
  "wf_bitmap b \<Longrightarrow> i < 9 \<Longrightarrow> j < 9 \<Longrightarrow> length (b ! i ! j) = 9"
  by (auto simp: wf_bitmap_def list_all_length)

lemma wf_bitmapI:
  "length b = 9 \<Longrightarrow> (\<And>i. i < 9 \<Longrightarrow> length (b ! i) = 9) \<Longrightarrow>
   (\<And>i j. i < 9 \<Longrightarrow> j < 9 \<Longrightarrow> length (b ! i ! j) = 9) \<Longrightarrow> wf_bitmap b"
  by (auto simp: wf_bitmap_def list_all_length)

lemma wf_clear_flag: "wf_bitmap b \<Longrightarrow> wf_bitmap (clear_flag b i j d)"
proof (rule wf_bitmapI)
  show "length (clear_flag b i j d) = 9" if "wf_bitmap b"
    using that by (simp add: clear_flag_def wf_bitmap_lengths)
  show "length (clear_flag b i j d ! a) = 9" if "wf_bitmap b" "a < 9" for a
    using that by (cases "a = i") (simp_all add: clear_flag_def wf_bitmap_lengths)
  show "length (clear_flag b i j d ! a ! c) = 9" if "wf_bitmap b" "a < 9" "c < 9" for a c
    using that by (cases "a = i"; cases "c = j") (simp_all add: clear_flag_def wf_bitmap_lengths)
qed

lemma clear_flag_nth:
  "wf_bitmap b \<Longrightarrow> a < 9 \<Longrightarrow> c < 9 \<Longrightarrow> e < 9 \<Longrightarrow>
   clear_flag b i j d ! a ! c ! e = (b ! a ! c ! e \<and> \<not> (a = i \<and> c = j \<and> e = d))"
  by (cases "a = i"; cases "c = j"; cases "e = d") (simp_all add: clear_flag_def wf_bitmap_lengths)

lemma fold_row_column:
  "wf_bitmap b \<Longrightarrow>
   wf_bitmap (fold (\<lambda>k b. clear_flag (clear_flag b i k d) k j d) ks b) \<and>
   (\<forall>a c e. a < 9 \<longrightarrow> c < 9 \<longrightarrow> e < 9 \<longrightarrow>
      fold (\<lambda>k b. clear_flag (clear_flag b i k d) k j d) ks b ! a ! c ! e =
        (b ! a ! c ! e \<and> \<not> (e = d \<and> ((a = i \<and> c \<in> set ks) \<or> (c = j \<and> a \<in> set ks)))))"
proof (induction ks arbitrary: b)
  case Nil
  then show ?case by simp
next
  case (Cons k ks)
  have w: "wf_bitmap (clear_flag (clear_flag b i k d) k j d)"
    using Cons.prems by (simp add: wf_clear_flag)
  show ?case
    using Cons.IH [OF w] Cons.prems
    by (auto simp: clear_flag_nth wf_clear_flag)
qed

lemma fold_box_row:
  "wf_bitmap b \<Longrightarrow>
   wf_bitmap (fold (\<lambda>l b. clear_flag b r (c0 + l) d) ls b) \<and>
   (\<forall>a c e. a < 9 \<longrightarrow> c < 9 \<longrightarrow> e < 9 \<longrightarrow>
      fold (\<lambda>l b. clear_flag b r (c0 + l) d) ls b ! a ! c ! e =
        (b ! a ! c ! e \<and> \<not> (e = d \<and> a = r \<and> c \<in> (\<lambda>l. c0 + l) ` set ls)))"
proof (induction ls arbitrary: b)
  case Nil
  then show ?case by simp
next
  case (Cons l ls)
  have w: "wf_bitmap (clear_flag b r (c0 + l) d)"
    using Cons.prems by (simp add: wf_clear_flag)
  show ?case
    using Cons.IH [OF w] Cons.prems
    by (auto simp: clear_flag_nth)
qed

lemma fold_box:
  "wf_bitmap b \<Longrightarrow>
   wf_bitmap (fold (\<lambda>k b. fold (\<lambda>l b. clear_flag b (r0 + k) (c0 + l) d) ls b) ks b) \<and>
   (\<forall>a c e. a < 9 \<longrightarrow> c < 9 \<longrightarrow> e < 9 \<longrightarrow>
      fold (\<lambda>k b. fold (\<lambda>l b. clear_flag b (r0 + k) (c0 + l) d) ls b) ks b ! a ! c ! e =
        (b ! a ! c ! e \<and>
         \<not> (e = d \<and> a \<in> (\<lambda>k. r0 + k) ` set ks \<and> c \<in> (\<lambda>l. c0 + l) ` set ls)))"
proof (induction ks arbitrary: b)
  case Nil
  then show ?case by simp
next
  case (Cons k ks)
  note row = fold_box_row [OF Cons.prems, of "r0 + k" c0 d ls]
  show ?case
    using Cons.IH [OF conjunct1 [OF row]] conjunct2 [OF row]
    by auto
qed


lemma wf_grid_lengths:
  "wf_grid g \<Longrightarrow> length g = 9"
  "wf_grid g \<Longrightarrow> i < 9 \<Longrightarrow> length (g ! i) = 9"
  by (auto simp: wf_grid_def list_all_length)

lemma wf_gridI:
  "length g = 9 \<Longrightarrow> (\<And>i. i < 9 \<Longrightarrow> length (g ! i) = 9) \<Longrightarrow> wf_grid g"
  by (auto simp: wf_grid_def list_all_length)

lemma wf_grid_update: "wf_grid g \<Longrightarrow> wf_grid (g[i := (g ! i)[j := v]])"
proof (rule wf_gridI)
  show "length (g[i := (g ! i)[j := v]]) = 9" if "wf_grid g"
    using that by (simp add: wf_grid_lengths)
  show "length (g[i := (g ! i)[j := v]] ! a) = 9" if "wf_grid g" "a < 9" for a
    using that by (cases "a = i") (simp_all add: wf_grid_lengths)
qed

lemma grid_update_nth:
  "wf_grid g \<Longrightarrow> a < 9 \<Longrightarrow> c < 9 \<Longrightarrow>
   g[i := (g ! i)[j := v]] ! a ! c = (if a = i \<and> c = j then v else g ! a ! c)"
  by (cases "a = i"; cases "c = j") (simp_all add: wf_grid_lengths)

lemma wf_bitmap_wipe: "wf_bitmap b \<Longrightarrow> wf_bitmap (b[i := (b ! i)[j := replicate 9 False]])"
proof (rule wf_bitmapI)
  let ?b = "b[i := (b ! i)[j := replicate 9 False]]"
  show "length ?b = 9" if "wf_bitmap b"
    using that by (simp add: wf_bitmap_lengths)
  show "length (?b ! a) = 9" if "wf_bitmap b" "a < 9" for a
    using that by (cases "a = i") (simp_all add: wf_bitmap_lengths)
  show "length (?b ! a ! c) = 9" if "wf_bitmap b" "a < 9" "c < 9" for a c
    using that by (cases "a = i"; cases "c = j") (simp_all add: wf_bitmap_lengths)
qed

lemma bitmap_wipe_nth:
  "wf_bitmap b \<Longrightarrow> a < 9 \<Longrightarrow> c < 9 \<Longrightarrow> e < 9 \<Longrightarrow>
   b[i := (b ! i)[j := replicate 9 False]] ! a ! c ! e = (b ! a ! c ! e \<and> \<not> (a = i \<and> c = j))"
  by (cases "a = i"; cases "c = j") (simp_all add: wf_bitmap_lengths)

lemma box_offsets: "(a \<in> (\<lambda>k. i div 3 * 3 + k) ` set [0..<3]) = (a div 3 = i div 3)" for a i :: nat
proof -
  have s: "set [0..<3] = {0, 1, 2::nat}" by auto
  have "(a = i div 3 * 3 \<or> a = i div 3 * 3 + 1 \<or> a = i div 3 * 3 + 2) = (a div 3 = i div 3)"
    by arith
  then show ?thesis unfolding s by auto
qed

lemma place_number_wf:
  assumes "wf_solver s"
  shows "wf_solver (place_number s i j n)"
proof -
  let ?b0 = "(bitmap s)[i := (bitmap s ! i)[j := replicate 9 False]]"
  have w: "wf_bitmap (bitmap s)" and g: "wf_grid (sudoku s)"
    using assms by (simp_all add: wf_solver_def)
  have w0: "wf_bitmap ?b0" using w by (rule wf_bitmap_wipe)
  note rc = fold_row_column [OF w0, of i "n - 1" j "[0..<9]"]
  note bx = fold_box [OF conjunct1 [OF rc], of "i div 3 * 3" "j div 3 * 3" "n - 1" "[0..<3]" "[0..<3]"]
  have "wf_bitmap (bitmap (place_number s i j n))"
    using conjunct1 [OF bx] by (simp add: place_number_def Let_def)
  moreover have "wf_grid (sudoku (place_number s i j n))"
    using wf_grid_update [OF g, of i j n] by (simp add: place_number_def Let_def)
  ultimately show ?thesis by (simp add: wf_solver_def)
qed

lemma place_number_sudoku:
  "wf_solver s \<Longrightarrow> a < 9 \<Longrightarrow> c < 9 \<Longrightarrow>
   sudoku (place_number s i j n) ! a ! c = (if a = i \<and> c = j then n else sudoku s ! a ! c)"
  unfolding wf_solver_def place_number_def Let_def
  by (simp add: grid_update_nth)

lemma place_number_bitmap:
  assumes "wf_solver s" "a < 9" "c < 9" "e < 9"
  shows "bitmap (place_number s i j n) ! a ! c ! e =
           (bitmap s ! a ! c ! e \<and> \<not> (a = i \<and> c = j) \<and>
            \<not> (e = n - 1 \<and> shares_unit (a, c) (i, j)))"
proof -
  let ?b0 = "(bitmap s)[i := (bitmap s ! i)[j := replicate 9 False]]"
  let ?b1 = "fold (\<lambda>k b. clear_flag (clear_flag b i k (n - 1)) k j (n - 1)) [0..<9] ?b0"
  let ?b2 = "fold (\<lambda>k b. fold (\<lambda>l b. clear_flag b (i div 3 * 3 + k) (j div 3 * 3 + l) (n - 1))
                                  [0..<3] b) [0..<3] ?b1"
  have w: "wf_bitmap (bitmap s)" using assms(1) by (simp add: wf_solver_def)
  have w0: "wf_bitmap ?b0" using w by (rule wf_bitmap_wipe)
  note rc = fold_row_column [OF w0, of i "n - 1" j "[0..<9]"]
  note bx = fold_box [OF conjunct1 [OF rc], of "i div 3 * 3" "j div 3 * 3" "n - 1" "[0..<3]" "[0..<3]"]
  have "bitmap (place_number s i j n) = ?b2"
    by (simp add: place_number_def Let_def)
  moreover have "?b2 ! a ! c ! e =
      (?b1 ! a ! c ! e \<and> \<not> (e = n - 1 \<and> a div 3 = i div 3 \<and> c div 3 = j div 3))"
    using conjunct2 [OF bx] assms(2-4) by (simp only: box_offsets)
  moreover have "?b1 ! a ! c ! e =
      (?b0 ! a ! c ! e \<and> \<not> (e = n - 1 \<and> (a = i \<or> c = j)))"
    using conjunct2 [OF rc] assms(2-4) by auto
  moreover have "?b0 ! a ! c ! e = (bitmap s ! a ! c ! e \<and> \<not> (a = i \<and> c = j))"
    using w assms(2-4) by (rule bitmap_wipe_nth)
  ultimately show ?thesis
    by (auto simp: shares_unit_def)
qed

lemma place_number_counters:
  "attempts (place_number s i j n) = attempts s"
  "backtrack_count (place_number s i j n) = backtrack_count s"
  by (simp_all add: place_number_def Let_def)

lemma set_all_cells: "set all_cells = {(a, c). a < 9 \<and> c < 9}"
  by (auto simp: all_cells_def)

lemma distinct_all_cells: "distinct all_cells"
  unfolding all_cells_def
  by (rule distinct_concat) (auto simp: distinct_map inj_on_def)

lemma list_all_all_cells: "list_all P all_cells = (\<forall>a<9. \<forall>c<9. P (a, c))"
  by (auto simp: list_all_iff set_all_cells)

lemma count_true_one:
  "count_true bs = 1 \<Longrightarrow>
   argmax_bool bs < length bs \<and> bs ! argmax_bool bs \<and> (\<forall>e<length bs. bs ! e \<longrightarrow> e = argmax_bool bs)"
proof (induction bs)
  case Nil
  then show ?case by (simp add: count_true_def)
next
  case (Cons b bs)
  show ?case
  proof (cases b)
    case True
    then have "filter (\<lambda>b. b) bs = []" using Cons.prems by (simp add: count_true_def)
    then have "\<forall>x\<in>set bs. \<not> x" by (simp add: filter_empty_conv)
    then have "\<forall>e<length bs. \<not> bs ! e" using nth_mem by blast
    then show ?thesis using True by (auto simp: nth_Cons split: nat.splits)
  next
    case False
    then have c: "count_true bs = 1" using Cons.prems by (simp add: count_true_def)
    then have "filter (\<lambda>b. b) bs \<noteq> []" by (auto simp: count_true_def)
    then have "True \<in> set bs" by (auto simp: filter_empty_conv)
    then show ?thesis using False Cons.IH [OF c] by (auto simp: nth_Cons split: nat.splits)
  qed
qed

lemma filter_update_count:
  "j < length xs \<Longrightarrow> P (xs ! j) \<Longrightarrow> \<not> P v \<Longrightarrow>
   Suc (length (filter P (xs[j := v]))) = length (filter P xs)"
  by (induction xs arbitrary: j) (auto split: nat.splits)

lemma concat_update_count:
  "i < length g \<Longrightarrow> j < length (g ! i) \<Longrightarrow> P (g ! i ! j) \<Longrightarrow> \<not> P v \<Longrightarrow>
   Suc (length (filter P (concat (g[i := (g ! i)[j := v]])))) = length (filter P (concat g))"
proof (induction g arbitrary: i)
  case Nil
  then show ?case by simp
next
  case (Cons r g)
  show ?case
  proof (cases i)
    case 0
    then show ?thesis using Cons.prems filter_update_count [of j r P v] by simp
  next
    case (Suc k)
    then show ?thesis using Cons.prems Cons.IH [of k] by simp
  qed
qed

lemma empty_count_fill:
  "wf_grid g \<Longrightarrow> i < 9 \<Longrightarrow> j < 9 \<Longrightarrow> g ! i ! j = 0 \<Longrightarrow> v \<noteq> 0 \<Longrightarrow>
   Suc (empty_count (g[i := (g ! i)[j := v]])) = empty_count g"
  unfolding empty_count_def
  by (rule concat_update_count) (simp_all add: wf_grid_lengths)

lemma filter_update_count_up:
  "j < length xs \<Longrightarrow> \<not> P (xs ! j) \<Longrightarrow> P v \<Longrightarrow>
   length (filter P (xs[j := v])) = Suc (length (filter P xs))"
  by (induction xs arbitrary: j) (auto split: nat.splits)

lemma concat_update_count_up:
  "i < length g \<Longrightarrow> j < length (g ! i) \<Longrightarrow> \<not> P (g ! i ! j) \<Longrightarrow> P v \<Longrightarrow>
   length (filter P (concat (g[i := (g ! i)[j := v]]))) = Suc (length (filter P (concat g)))"
proof (induction g arbitrary: i)
  case Nil
  then show ?case by simp
next
  case (Cons r g)
  show ?case
  proof (cases i)
    case 0
    then show ?thesis using Cons.prems filter_update_count_up [of j r P v] by simp
  next
    case (Suc k)
    then show ?thesis using Cons.prems Cons.IH [of k] by simp
  qed
qed

lemma empty_count_clear:
  "wf_grid g \<Longrightarrow> i < 9 \<Longrightarrow> j < 9 \<Longrightarrow> g ! i ! j \<noteq> 0 \<Longrightarrow>
   empty_count (g[i := (g ! i)[j := 0]]) = Suc (empty_count g)"
  unfolding empty_count_def
  by (rule concat_update_count_up) (simp_all add: wf_grid_lengths)

lemma empty_count_zero: "wf_grid g \<Longrightarrow> (empty_count g = 0) = (\<forall>a<9. \<forall>c<9. g ! a ! c \<noteq> 0)"
proof -
  assume w: "wf_grid g"
  have "(empty_count g = 0) = (\<forall>r\<in>set g. \<forall>x\<in>set r. x \<noteq> 0)"
    by (auto simp: empty_count_def filter_empty_conv)
  also have "\<dots> = (\<forall>a<9. \<forall>c<9. g ! a ! c \<noteq> 0)"
  proof
    assume h: "\<forall>r\<in>set g. \<forall>x\<in>set r. x \<noteq> 0"
    show "\<forall>a<9. \<forall>c<9. g ! a ! c \<noteq> 0"
    proof (intro allI impI)
      fix a c :: nat assume "a < 9" "c < 9"
      then have "g ! a \<in> set g" "g ! a ! c \<in> set (g ! a)"
        using w by (simp_all add: wf_grid_lengths)
      then show "g ! a ! c \<noteq> 0" using h by blast
    qed
  next
    assume h: "\<forall>a<9. \<forall>c<9. g ! a ! c \<noteq> 0"
    show "\<forall>r\<in>set g. \<forall>x\<in>set r. x \<noteq> 0"
    proof (intro ballI)
      fix r x assume "r \<in> set g" "x \<in> set r"
      then obtain a where a: "a < length g" "r = g ! a" by (auto simp: in_set_conv_nth)
      with \<open>x \<in> set r\<close> obtain c where c: "c < length r" "x = r ! c" by (auto simp: in_set_conv_nth)
      have "a < 9" "c < 9" using a c w by (simp_all add: wf_grid_lengths)
      then show "x \<noteq> 0" using h a c by simp
    qed
  qed
  finally show ?thesis .
qed

lemma finite_flags: "finite {(a, c, e). a < (9::nat) \<and> c < (9::nat) \<and> e < (9::nat) \<and> P a c e}"
proof -
  have "{(a, c, e). a < 9 \<and> c < 9 \<and> e < 9 \<and> P a c e} \<subseteq> {..<9} \<times> {..<9} \<times> {..<9}" by auto
  then show ?thesis by (rule finite_subset) simp
qed

lemma place_number_flag_mono:
  "wf_solver s \<Longrightarrow> a < 9 \<Longrightarrow> c < 9 \<Longrightarrow> e < 9 \<Longrightarrow>
   bitmap (place_number s i j n) ! a ! c ! e \<Longrightarrow> bitmap s ! a ! c ! e"
  by (simp add: place_number_bitmap)

lemma place_number_flags_subset:
  assumes "wf_solver s"
  shows "{(a, c, e). a < 9 \<and> c < 9 \<and> e < 9 \<and> bitmap (place_number s i j n) ! a ! c ! e}
           \<subseteq> {(a, c, e). a < 9 \<and> c < 9 \<and> e < 9 \<and> bitmap s ! a ! c ! e}"
proof (rule subsetI)
  fix x
  assume h: "x \<in> {(a, c, e). a < 9 \<and> c < 9 \<and> e < 9 \<and> bitmap (place_number s i j n) ! a ! c ! e}"
  obtain a c e where x: "x = (a, c, e)" by (cases x) auto
  have "a < 9" "c < 9" "e < 9" "bitmap (place_number s i j n) ! a ! c ! e"
    using h x by simp_all
  then have "bitmap s ! a ! c ! e" using place_number_flag_mono [OF assms] by blast
  then show "x \<in> {(a, c, e). a < 9 \<and> c < 9 \<and> e < 9 \<and> bitmap s ! a ! c ! e}"
    using x \<open>a < 9\<close> \<open>c < 9\<close> \<open>e < 9\<close> by simp
qed

lemma place_number_flag_count:
  assumes "wf_solver s"
  shows "flag_count (place_number s i j n) \<le> flag_count s"
  unfolding flag_count_def
  by (rule card_mono [OF finite_flags place_number_flags_subset [OF assms]])

lemma place_number_flag_count_less:
  assumes "wf_solver s" "i < 9" "j < 9" "1 \<le> n" "n \<le> 9" "can_place_number s i j n"
  shows "flag_count (place_number s i j n) < flag_count s"
proof -
  define A where "A = {(a, c, e). a < 9 \<and> c < 9 \<and> e < 9 \<and> bitmap (place_number s i j n) ! a ! c ! e}"
  define B where "B = {(a, c, e). a < 9 \<and> c < 9 \<and> e < 9 \<and> bitmap s ! a ! c ! e}"
  have e: "n - 1 < 9" using assms(5) by arith
  have old: "bitmap s ! i ! j ! (n - 1)" using assms(6) by (simp add: can_place_number_def)
  have new: "\<not> bitmap (place_number s i j n) ! i ! j ! (n - 1)"
    using place_number_bitmap [OF assms(1-3) e, where i = i and j = j and n = n] by simp
  have sub: "A \<subseteq> B" unfolding A_def B_def by (rule place_number_flags_subset [OF assms(1)])
  have inB: "(i, j, n - 1) \<in> B" unfolding B_def using old e assms(2,3) by simp
  have notA: "(i, j, n - 1) \<notin> A" unfolding A_def using new by simp
  have "A \<noteq> B" using inB notA by metis
  with sub have "A \<subset> B" by (rule psubsetI)
  moreover have "finite B" unfolding B_def by (rule finite_flags)
  ultimately have "card A < card B" by (rule psubset_card_mono [rotated])
  then show ?thesis by (simp add: flag_count_def A_def B_def)
qed

lemma trivial_cell_can_place:
  assumes "wf_solver s" "i < 9" "j < 9" "is_trivial_cell s i j"
  shows "argmax_bool (bitmap s ! i ! j) < 9"
    and "can_place_number s i j (argmax_bool (bitmap s ! i ! j) + 1)"
    and "sudoku s ! i ! j = 0"
    and "\<And>e. e < 9 \<Longrightarrow> bitmap s ! i ! j ! e \<Longrightarrow> e = argmax_bool (bitmap s ! i ! j)"
proof -
  have l: "length (bitmap s ! i ! j) = 9"
    using assms(1-3) by (simp add: wf_solver_def wf_bitmap_lengths)
  have c: "count_true (bitmap s ! i ! j) = 1" using assms(4) by (simp add: is_trivial_cell_def)
  note one = count_true_one [OF c]
  show "argmax_bool (bitmap s ! i ! j) < 9" using one l by simp
  show "can_place_number s i j (argmax_bool (bitmap s ! i ! j) + 1)"
    using one by (simp add: can_place_number_def)
  show "sudoku s ! i ! j = 0" using assms(4) by (simp add: is_trivial_cell_def)
  show "e = argmax_bool (bitmap s ! i ! j)" if "e < 9" "bitmap s ! i ! j ! e" for e
    using one l that by simp
qed

lemma place_number_empty_count:
  assumes "wf_solver s" "i < 9" "j < 9" "sudoku s ! i ! j = 0" "n \<noteq> 0"
  shows "Suc (empty_count (sudoku (place_number s i j n))) = empty_count (sudoku s)"
proof -
  have g: "wf_grid (sudoku s)" using assms(1) by (simp add: wf_solver_def)
  have "sudoku (place_number s i j n) = (sudoku s)[i := (sudoku s ! i)[j := n]]"
    by (simp add: place_number_def Let_def)
  then show ?thesis using empty_count_fill [OF g assms(2-5)] by simp
qed

lemma forced_step_props:
  assumes "wf_solver s" "forced_step s s'"
  shows "wf_solver s'"
    and "Suc (empty_count (sudoku s')) = empty_count (sudoku s)"
    and "flag_count s' < flag_count s"
    and "attempts s' = attempts s" and "backtrack_count s' = backtrack_count s"
proof -
  obtain i j where ij: "i < 9" "j < 9" "is_trivial_cell s i j"
      and s': "s' = place_number s i j (argmax_bool (bitmap s ! i ! j) + 1)"
    using assms(2) by (auto simp: forced_step_def)
  note t = trivial_cell_can_place [OF assms(1) ij]
  show "wf_solver s'" unfolding s' by (rule place_number_wf [OF assms(1)])
  show "Suc (empty_count (sudoku s')) = empty_count (sudoku s)"
    unfolding s' by (rule place_number_empty_count [OF assms(1) ij(1,2) t(3)]) simp
  show "flag_count s' < flag_count s"
    unfolding s' using t(1) by (intro place_number_flag_count_less [OF assms(1) ij(1,2) _ _ t(2)]) simp_all
  show "attempts s' = attempts s" "backtrack_count s' = backtrack_count s"
    unfolding s' by (simp_all add: place_number_counters)
qed

lemma forced_steps_props:
  assumes "forced_step\<^sup>*\<^sup>* s s'" "wf_solver s"
  shows "wf_solver s' \<and> empty_count (sudoku s') \<le> empty_count (sudoku s) \<and>
         flag_count s' \<le> flag_count s \<and> attempts s' = attempts s \<and>
         backtrack_count s' = backtrack_count s"
  using assms
proof (induction rule: rtranclp_induct)
  case base
  then show ?case by simp
next
  case (step y z)
  then have w: "wf_solver y" by simp
  show ?case using forced_step_props [OF w step.hyps(2)] step.IH [OF step.prems] by simp
qed

lemma forced_steps_strict:
  assumes "forced_step\<^sup>+\<^sup>+ s s'" "wf_solver s"
  shows "empty_count (sudoku s') < empty_count (sudoku s)" "flag_count s' < flag_count s"
proof -
  obtain y where y: "forced_step s y" "forced_step\<^sup>*\<^sup>* y s'"
    using assms(1) by (meson tranclpD)
  note a = forced_step_props [OF assms(2) y(1)]
  note b = forced_steps_props [OF y(2) a(1)]
  show "empty_count (sudoku s') < empty_count (sudoku s)" using a(2) b by linarith
  show "flag_count s' < flag_count s" using a(3) b by linarith
qed

lemma trivial_cell_step_pair:
  "trivial_cell_step (i, j) (ch, s) =
     (if is_trivial_cell s i j
      then (True, place_number s i j (argmax_bool (bitmap s ! i ! j) + 1)) else (ch, s))"
  by (simp add: trivial_cell_step_def)

lemma trivial_fold:
  "fold trivial_cell_step cs (ch, s) = (ch', s') \<Longrightarrow> set cs \<subseteq> set all_cells \<Longrightarrow>
   forced_step\<^sup>*\<^sup>* s s' \<and> (ch \<longrightarrow> ch') \<and>
   (\<not> ch' \<longrightarrow> s' = s \<and> (\<forall>(i, j)\<in>set cs. \<not> is_trivial_cell s i j)) \<and>
   (ch' \<and> \<not> ch \<longrightarrow> forced_step\<^sup>+\<^sup>+ s s')"
proof (induction cs arbitrary: ch s)
  case Nil
  then show ?case by simp
next
  case (Cons c cs)
  obtain i j where c: "c = (i, j)" by (cases c) auto
  have ij: "i < 9" "j < 9" using Cons.prems(2) c by (auto simp: set_all_cells)
  have sub: "set cs \<subseteq> set all_cells" using Cons.prems(2) by simp
  show ?case
  proof (cases "is_trivial_cell s i j")
    case True
    let ?s1 = "place_number s i j (argmax_bool (bitmap s ! i ! j) + 1)"
    have f: "fold trivial_cell_step cs (True, ?s1) = (ch', s')"
      using Cons.prems(1) True c by (simp add: trivial_cell_step_pair)
    have st: "forced_step s ?s1" using True ij by (auto simp: forced_step_def)
    note ih = Cons.IH [OF f sub]
    have "forced_step\<^sup>*\<^sup>* s s'" using st ih by (meson converse_rtranclp_into_rtranclp)
    moreover have "forced_step\<^sup>+\<^sup>+ s s'" using st ih by (meson rtranclp_into_tranclp2)
    moreover have "ch'" using ih by simp
    ultimately show ?thesis by simp
  next
    case False
    have f: "fold trivial_cell_step cs (ch, s) = (ch', s')"
      using Cons.prems(1) False c by (simp add: trivial_cell_step_pair)
    note ih = Cons.IH [OF f sub]
    show ?thesis using ih False c by auto
  qed
qed

lemma trivial_pass_props:
  assumes "trivial_pass s = (ch, s')"
  shows "forced_step\<^sup>*\<^sup>* s s'"
    and "\<not> ch \<Longrightarrow> s' = s"
    and "\<not> ch \<Longrightarrow> i < 9 \<Longrightarrow> j < 9 \<Longrightarrow> \<not> is_trivial_cell s i j"
    and "ch \<Longrightarrow> forced_step\<^sup>+\<^sup>+ s s'"
proof -
  have f: "fold trivial_cell_step all_cells (False, s) = (ch, s')"
    using assms by (simp add: trivial_pass_def)
  note t = trivial_fold [OF f subset_refl]
  show "forced_step\<^sup>*\<^sup>* s s'" using t by simp
  show "s' = s" if "\<not> ch" using t that by simp
  show "\<not> is_trivial_cell s i j" if "\<not> ch" "i < 9" "j < 9"
    using t that by (auto simp: set_all_cells)
  show "forced_step\<^sup>+\<^sup>+ s s'" if "ch" using t that by simp
qed

lemma trivial_moves_total:
  "wf_solver s \<Longrightarrow> \<exists>s'. trivial_moves s = Some s'"
proof (induction "empty_count (sudoku s)" arbitrary: s rule: less_induct)
  case less
  obtain ch s1 where p: "trivial_pass s = (ch, s1)" by (cases "trivial_pass s") auto
  show ?case
  proof (cases ch)
    case True
    have st: "forced_step\<^sup>+\<^sup>+ s s1" using trivial_pass_props(4) [OF p] True by simp
    have "wf_solver s1"
      using forced_steps_props [OF tranclp_into_rtranclp [OF st] less.prems] by simp
    moreover have "empty_count (sudoku s1) < empty_count (sudoku s)"
      by (rule forced_steps_strict(1) [OF st less.prems])
    ultimately obtain s' where "trivial_moves s1 = Some s'" using less.hyps by blast
    then show ?thesis using p True by (subst trivial_moves.simps) simp
  next
    case False
    then show ?thesis using p by (subst trivial_moves.simps) simp
  qed
qed

lemma trivial_moves_result:
  assumes "trivial_moves s = Some s'"
  shows "forced_step\<^sup>*\<^sup>* s s' \<and> trivial_pass s' = (False, s')"
proof (rule trivial_moves.raw_induct
    [where P = "\<lambda>s s'. forced_step\<^sup>*\<^sup>* s s' \<and> trivial_pass s' = (False, s')", OF _ assms])
  fix tm :: "solver \<Rightarrow> solver option" and s sa
  assume ih: "\<And>x y. tm x = Some y \<Longrightarrow> forced_step\<^sup>*\<^sup>* x y \<and> trivial_pass y = (False, y)"
    and eq: "(case trivial_pass s of (changed, s') \<Rightarrow> if changed then tm s' else Some s') = Some sa"
  obtain ch s1 where p: "trivial_pass s = (ch, s1)" by (cases "trivial_pass s") auto
  show "forced_step\<^sup>*\<^sup>* s sa \<and> trivial_pass sa = (False, sa)"
  proof (cases ch)
    case True
    then have "tm s1 = Some sa" using eq p by simp
    then have "forced_step\<^sup>*\<^sup>* s1 sa \<and> trivial_pass sa = (False, sa)" by (rule ih)
    then show ?thesis using trivial_pass_props(1) [OF p] by auto
  next
    case False
    then have "sa = s1" using eq p by simp
    then show ?thesis using trivial_pass_props(1,2) [OF p] False p by auto
  qed
qed

lemma shares_unit_sym: "shares_unit p q = shares_unit q p"
  by (auto simp: shares_unit_def)

lemma shares_unit_refl: "shares_unit p p"
  by (simp add: shares_unit_def)

lemma no_conflict_iff:
  "no_conflict g =
     (\<forall>a<9. \<forall>c<9. \<forall>p<9. \<forall>q<9. g ! a ! c = 0 \<or> (a, c) = (p, q) \<or>
        \<not> shares_unit (a, c) (p, q) \<or> g ! p ! q \<noteq> g ! a ! c)"
  unfolding no_conflict_def list_all_all_cells by (simp only: fst_conv snd_conv)

lemma no_conflictI:
  assumes "\<And>a c p q. a < 9 \<Longrightarrow> c < 9 \<Longrightarrow> p < 9 \<Longrightarrow> q < 9 \<Longrightarrow> g ! a ! c \<noteq> 0 \<Longrightarrow>
             \<not> (a = p \<and> c = q) \<Longrightarrow> shares_unit (a, c) (p, q) \<Longrightarrow> g ! p ! q \<noteq> g ! a ! c"
  shows "no_conflict g"
  unfolding no_conflict_iff
proof (intro allI impI)
  fix a c p q :: nat
  assume r: "a < 9" "c < 9" "p < 9" "q < 9"
  show "g ! a ! c = 0 \<or> (a, c) = (p, q) \<or> \<not> shares_unit (a, c) (p, q) \<or> g ! p ! q \<noteq> g ! a ! c"
    using assms [OF r] by blast
qed

lemma no_conflictD:
  assumes "no_conflict g" "a < 9" "c < 9" "p < 9" "q < 9" "g ! a ! c \<noteq> 0"
    "\<not> (a = p \<and> c = q)" "shares_unit (a, c) (p, q)"
  shows "g ! p ! q \<noteq> g ! a ! c"
proof -
  have "g ! a ! c = 0 \<or> (a, c) = (p, q) \<or> \<not> shares_unit (a, c) (p, q) \<or> g ! p ! q \<noteq> g ! a ! c"
    using assms(1-5) unfolding no_conflict_iff by blast
  then show ?thesis using assms(6-8) by blast
qed

lemma consistentD:
  assumes "consistent s"
  shows "wf_solver s"
    and "\<And>a c. a < 9 \<Longrightarrow> c < 9 \<Longrightarrow> sudoku s ! a ! c \<le> 9"
    and "\<And>a c e. a < 9 \<Longrightarrow> c < 9 \<Longrightarrow> e < 9 \<Longrightarrow> bitmap s ! a ! c ! e \<Longrightarrow> sudoku s ! a ! c = 0"
    and "\<And>a c e p q. a < 9 \<Longrightarrow> c < 9 \<Longrightarrow> e < 9 \<Longrightarrow> bitmap s ! a ! c ! e \<Longrightarrow> p < 9 \<Longrightarrow> q < 9 \<Longrightarrow>
           shares_unit (p, q) (a, c) \<Longrightarrow> sudoku s ! p ! q \<noteq> e + 1"
    and "\<And>a c e. a < 9 \<Longrightarrow> c < 9 \<Longrightarrow> e < 9 \<Longrightarrow> \<not> bitmap s ! a ! c ! e \<Longrightarrow> sudoku s ! a ! c = 0 \<Longrightarrow>
           \<exists>p<9. \<exists>q<9. shares_unit (p, q) (a, c) \<and> sudoku s ! p ! q = e + 1"
    and "no_conflict (sudoku s)"
    and "\<And>a c e. a < 9 \<Longrightarrow> c < 9 \<Longrightarrow> e < 9 \<Longrightarrow> bitmap s ! a ! c ! e =
           (sudoku s ! a ! c = 0 \<and>
            \<not> (\<exists>p<9. \<exists>q<9. shares_unit (p, q) (a, c) \<and> sudoku s ! p ! q = e + 1))"
proof -
  note c = assms [unfolded consistent_def]
  note r = conjunct1 [OF conjunct2 [OF c]]
  note x = conjunct1 [OF conjunct2 [OF conjunct2 [OF c]]]
  show "wf_solver s" by (rule conjunct1 [OF c])
  show "no_conflict (sudoku s)" by (rule conjunct2 [OF conjunct2 [OF conjunct2 [OF c]]])
  show "sudoku s ! a ! c \<le> 9" if "a < 9" "c < 9" for a c
    using r that by blast
  show xe: "bitmap s ! a ! c ! e =
           (sudoku s ! a ! c = 0 \<and>
            \<not> (\<exists>p<9. \<exists>q<9. shares_unit (p, q) (a, c) \<and> sudoku s ! p ! q = e + 1))"
    if "a < 9" "c < 9" "e < 9" for a c e
    using x that by blast
  show "sudoku s ! a ! c = 0" if "a < 9" "c < 9" "e < 9" "bitmap s ! a ! c ! e" for a c e
    using xe [OF that(1-3)] that(4) by blast
  show "sudoku s ! p ! q \<noteq> e + 1"
    if "a < 9" "c < 9" "e < 9" "bitmap s ! a ! c ! e" "p < 9" "q < 9" "shares_unit (p, q) (a, c)"
    for a c e p q
    using xe [OF that(1-3)] that(4-7) by blast
  show "\<exists>p<9. \<exists>q<9. shares_unit (p, q) (a, c) \<and> sudoku s ! p ! q = e + 1"
    if "a < 9" "c < 9" "e < 9" "\<not> bitmap s ! a ! c ! e" "sudoku s ! a ! c = 0" for a c e
    using xe [OF that(1-3)] that(4,5) by blast
qed

lemma consistentI:
  assumes "wf_solver s"
    and "\<And>a c. a < 9 \<Longrightarrow> c < 9 \<Longrightarrow> sudoku s ! a ! c \<le> 9"
    and "\<And>a c e. a < 9 \<Longrightarrow> c < 9 \<Longrightarrow> e < 9 \<Longrightarrow> bitmap s ! a ! c ! e =
           (sudoku s ! a ! c = 0 \<and>
            \<not> (\<exists>p<9. \<exists>q<9. shares_unit (p, q) (a, c) \<and> sudoku s ! p ! q = e + 1))"
    and "no_conflict (sudoku s)"
  shows "consistent s"
  unfolding consistent_def
proof (intro conjI allI impI)
  show "wf_solver s" by (rule assms(1))
  show "no_conflict (sudoku s)" by (rule assms(4))
  show "sudoku s ! a ! c \<le> 9" if "a < 9" "c < 9" for a c by (rule assms(2) [OF that])
  show "bitmap s ! a ! c ! e =
           (sudoku s ! a ! c = 0 \<and>
            \<not> (\<exists>p<9. \<exists>q<9. shares_unit (p, q) (a, c) \<and> sudoku s ! p ! q = e + 1))"
    if "a < 9" "c < 9" "e < 9" for a c e by (rule assms(3) [OF that])
qed

lemma consistent_arrays:
  "bitmap s' = bitmap s \<Longrightarrow> sudoku s' = sudoku s \<Longrightarrow> consistent s' = consistent s"
  by (simp add: consistent_def wf_solver_def)

lemma consistent_place_number:
  assumes cs: "consistent s" and ij: "i < 9" "j < 9" and n: "1 \<le> n" "n \<le> 9"
    and cp: "can_place_number s i j n"
  shows "consistent (place_number s i j n)"
proof -
  let ?s = "place_number s i j n"
  note d = consistentD [OF cs]
  have e: "n - 1 < 9" using n by arith
  have bit: "bitmap s ! i ! j ! (n - 1)" using cp by (simp add: can_place_number_def)
  have empty: "sudoku s ! i ! j = 0" by (rule d(3) [OF ij e bit])
  have free: "sudoku s ! p ! q \<noteq> n" if "p < 9" "q < 9" "shares_unit (p, q) (i, j)" for p q
    using d(4) [OF ij e bit that] n by simp
  have sud1: "sudoku ?s ! i ! j = n"
    using place_number_sudoku [OF d(1) ij, of i j n] by simp
  have sud2: "sudoku ?s ! a ! c = sudoku s ! a ! c"
    if "a < 9" "c < 9" "\<not> (a = i \<and> c = j)" for a c
    using place_number_sudoku [OF d(1) that(1,2), of i j n] that(3) by auto
  have w: "wf_solver ?s" by (rule place_number_wf [OF d(1)])
  have r: "sudoku ?s ! a ! c \<le> 9" if "a < 9" "c < 9" for a c
  proof (cases "a = i \<and> c = j")
    case True
    then show ?thesis using sud1 n by simp
  next
    case False
    show ?thesis using sud2 [OF that False] d(2) [OF that] by simp
  qed
  have x: "bitmap ?s ! a ! c ! f =
         (sudoku ?s ! a ! c = 0 \<and>
          \<not> (\<exists>p<9. \<exists>q<9. shares_unit (p, q) (a, c) \<and> sudoku ?s ! p ! q = f + 1))"
    if acf: "a < 9" "c < 9" "f < 9" for a c f
  proof (cases "a = i \<and> c = j")
    case True
    have "\<not> bitmap ?s ! a ! c ! f" using place_number_bitmap [OF d(1) acf, of i j n] True by blast
    moreover have "sudoku ?s ! a ! c \<noteq> 0" using True sud1 n by simp
    ultimately show ?thesis by blast
  next
    case False
    have old: "bitmap s ! a ! c ! f =
         (sudoku s ! a ! c = 0 \<and>
          \<not> (\<exists>p<9. \<exists>q<9. shares_unit (p, q) (a, c) \<and> sudoku s ! p ! q = f + 1))"
      by (rule d(7) [OF acf])
    have peers: "(\<exists>p<9. \<exists>q<9. shares_unit (p, q) (a, c) \<and> sudoku ?s ! p ! q = f + 1) =
                 ((\<exists>p<9. \<exists>q<9. shares_unit (p, q) (a, c) \<and> sudoku s ! p ! q = f + 1) \<or>
                  (shares_unit (i, j) (a, c) \<and> n = f + 1))"
    proof
      assume "\<exists>p<9. \<exists>q<9. shares_unit (p, q) (a, c) \<and> sudoku ?s ! p ! q = f + 1"
      then obtain p q where pq: "p < 9" "q < 9" "shares_unit (p, q) (a, c)" "sudoku ?s ! p ! q = f + 1"
        by blast
      show "(\<exists>p<9. \<exists>q<9. shares_unit (p, q) (a, c) \<and> sudoku s ! p ! q = f + 1) \<or>
            (shares_unit (i, j) (a, c) \<and> n = f + 1)"
      proof (cases "p = i \<and> q = j")
        case True
        then have "shares_unit (i, j) (a, c)" "n = f + 1" using pq sud1 by simp_all
        then show ?thesis by blast
      next
        case False
        then have "sudoku s ! p ! q = f + 1" using pq(4) sud2 [OF pq(1,2) False] by simp
        then show ?thesis using pq(1-3) by blast
      qed
    next
      assume h: "(\<exists>p<9. \<exists>q<9. shares_unit (p, q) (a, c) \<and> sudoku s ! p ! q = f + 1) \<or>
            (shares_unit (i, j) (a, c) \<and> n = f + 1)"
      show "\<exists>p<9. \<exists>q<9. shares_unit (p, q) (a, c) \<and> sudoku ?s ! p ! q = f + 1"
      proof (rule disjE [OF h])
        assume "\<exists>p<9. \<exists>q<9. shares_unit (p, q) (a, c) \<and> sudoku s ! p ! q = f + 1"
        then obtain p q where pq: "p < 9" "q < 9" "shares_unit (p, q) (a, c)" "sudoku s ! p ! q = f + 1"
          by blast
        have "\<not> (p = i \<and> q = j)" using empty pq(4) by auto
        then have "sudoku ?s ! p ! q = f + 1" using pq(4) sud2 [OF pq(1,2)] by simp
        then show ?thesis using pq(1-3) by blast
      next
        assume "shares_unit (i, j) (a, c) \<and> n = f + 1"
        then show ?thesis using sud1 ij by blast
      qed
    qed
    have b: "bitmap ?s ! a ! c ! f =
               (bitmap s ! a ! c ! f \<and> \<not> (f = n - 1 \<and> shares_unit (a, c) (i, j)))"
      using place_number_bitmap [OF d(1) acf, of i j n] False by blast
    have fn: "(f = n - 1) = (n = f + 1)" using n by arith
    have sh: "shares_unit (a, c) (i, j) = shares_unit (i, j) (a, c)" by (rule shares_unit_sym)
    have v: "sudoku ?s ! a ! c = sudoku s ! a ! c" by (rule sud2 [OF acf(1,2) False])
    show ?thesis unfolding b v peers old sh fn by blast
  qed
  have nc: "no_conflict (sudoku ?s)"
  proof (rule no_conflictI)
    fix a c p q
    assume ac: "a < 9" "c < 9" and pq: "p < 9" "q < 9"
      and nz: "sudoku ?s ! a ! c \<noteq> 0" and ne': "\<not> (a = p \<and> c = q)"
      and sh: "shares_unit (a, c) (p, q)"
    show "sudoku ?s ! p ! q \<noteq> sudoku ?s ! a ! c"
    proof (cases "a = i \<and> c = j")
      case True
      then have npq: "\<not> (p = i \<and> q = j)" using ne' by blast
      have "shares_unit (p, q) (i, j)" using sh True shares_unit_sym by blast
      then have "sudoku s ! p ! q \<noteq> n" by (rule free [OF pq])
      then show ?thesis using sud2 [OF pq npq] sud1 True by simp
    next
      case False
      have v: "sudoku ?s ! a ! c = sudoku s ! a ! c" by (rule sud2 [OF ac False])
      show ?thesis
      proof (cases "p = i \<and> q = j")
        case True
        then have "shares_unit (a, c) (i, j)" using sh by simp
        then have "sudoku s ! a ! c \<noteq> n" by (rule free [OF ac])
        then show ?thesis using v sud1 True by simp
      next
        case False
        have "sudoku ?s ! p ! q = sudoku s ! p ! q" by (rule sud2 [OF pq False])
        moreover have "sudoku s ! p ! q \<noteq> sudoku s ! a ! c"
          using no_conflictD [OF d(6) ac pq _ ne' sh] nz v by simp
        ultimately show ?thesis using v by simp
      qed
    qed
  qed
  show ?thesis by (rule consistentI [OF w r x nc])
qed

lemma consistent_forced_step:
  assumes "consistent s" "forced_step s s'"
  shows "consistent s'"
proof -
  obtain i j where ij: "i < 9" "j < 9" "is_trivial_cell s i j"
      and s': "s' = place_number s i j (argmax_bool (bitmap s ! i ! j) + 1)"
    using assms(2) by (auto simp: forced_step_def)
  note t = trivial_cell_can_place [OF consistentD(1) [OF assms(1)] ij]
  show ?thesis unfolding s'
    using t(1) by (intro consistent_place_number [OF assms(1) ij(1,2) _ _ t(2)]) simp_all
qed

lemma consistent_forced_steps:
  "forced_step\<^sup>*\<^sup>* s s' \<Longrightarrow> consistent s \<Longrightarrow> consistent s'"
  by (induction rule: rtranclp_induct) (auto intro: consistent_forced_step)

lemma consistent_trivial_moves:
  "trivial_moves s = Some s' \<Longrightarrow> consistent s \<Longrightarrow> consistent s'"
  using trivial_moves_result consistent_forced_steps by blast

section \<open>Claims about placement and propagation\<close>

lemma wf_fresh_solver: "wf_solver fresh_solver"
  by (simp add: wf_solver_def wf_grid_def wf_bitmap_def fresh_solver_def list_all_length)

text \<open>The solver built from \<open>row0\<close>, where \<^verbatim>\<open>trivial_moves\<close> fills cell (0, 8).\<close>

lemma wf_row0: "wf_solver (SudokuSolver row0)"
  by code_simp

lemma trivial_row0: "is_trivial_cell (SudokuSolver row0) 0 8"
  by code_simp

lemma empty_count_row0: "empty_count (sudoku (SudokuSolver row0)) = 73"
  by code_simp

lemma trivial_moves_row0:
  "map_option sudoku (trivial_moves (SudokuSolver row0)) =
     Some ([1, 2, 3, 4, 5, 6, 7, 8, 9] # replicate 8 (replicate 9 0))"
  by code_simp

text \<open>
  C9. After \<^verbatim>\<open>place_number(row, col, d)\<close> the cell \<open>(row, col)\<close> accepts no digit any more,
  \<open>d\<close> included, and \<open>d\<close> is no candidate of any cell that shares the row, the column or
  the 3x3 box with it. This holds for every digit \<open>d\<close> in 1..9, in particular for a
  candidate of the cell.
\<close>

theorem place_number_clears_candidates:
  assumes "wf_solver s" "row < 9" "col < 9" "1 \<le> d" "d \<le> 9"
  shows "\<not> can_place_number (place_number s row col d) row col d \<and>
         (\<forall>n. 1 \<le> n \<and> n \<le> 9 \<longrightarrow> \<not> can_place_number (place_number s row col d) row col n) \<and>
         (\<forall>a<9. \<forall>c<9. shares_unit (a, c) (row, col) \<longrightarrow>
            \<not> can_place_number (place_number s row col d) a c d)"
proof -
  have own: "\<not> can_place_number (place_number s row col d) row col n" if "1 \<le> n" "n \<le> 9" for n
  proof -
    have "n - 1 < 9" using that by arith
    then show ?thesis
      using place_number_bitmap [OF assms(1-3), of "n - 1" row col d]
      by (simp add: can_place_number_def)
  qed
  have peer: "\<not> can_place_number (place_number s row col d) a c d"
    if "a < 9" "c < 9" "shares_unit (a, c) (row, col)" for a c
  proof -
    have "d - 1 < 9" using assms(5) by arith
    then show ?thesis
      using place_number_bitmap [OF assms(1) that(1,2), of "d - 1" row col d] that(3)
      by (simp add: can_place_number_def)
  qed
  show ?thesis using own [OF assms(4,5)] own peer by blast
qed

theorem place_number_clears_candidates_witness:
  "\<not> can_place_number (place_number fresh_solver 0 0 1) 0 0 1 \<and>
   \<not> can_place_number (place_number fresh_solver 0 0 1) 0 0 5 \<and>
   \<not> can_place_number (place_number fresh_solver 0 0 1) 1 1 1 \<and>
   can_place_number fresh_solver 0 0 1"
proof -
  have sh: "shares_unit (1, 1) (0, 0)" by (simp add: shares_unit_def)
  have cp: "can_place_number fresh_solver 0 0 1"
    by (simp add: can_place_number_def fresh_solver_def)
  note t = place_number_clears_candidates [OF wf_fresh_solver, of 0 0 1]
  have "\<not> can_place_number (place_number fresh_solver 0 0 1) 0 0 1" using t by simp
  moreover have "\<not> can_place_number (place_number fresh_solver 0 0 1) 0 0 5" using t by simp
  moreover have "\<not> can_place_number (place_number fresh_solver 0 0 1) 1 1 1" using t sh by simp
  ultimately show ?thesis using cp by blast
qed

text \<open>
  C7. On every solver state (arrays of shape 9x9 and 9x9x9) the loop of
  \<^verbatim>\<open>trivial_moves\<close> returns. Every forced placement removes one empty cell, the state it
  returns has no more empty cells than the one it started from, and in that state no empty
  cell has exactly one candidate left.
\<close>

theorem trivial_moves_terminates:
  assumes "wf_solver s"
  shows "\<exists>s'. trivial_moves s = Some s' \<and>
           empty_count (sudoku s') \<le> empty_count (sudoku s) \<and>
           (\<forall>i<9. \<forall>j<9. \<not> is_trivial_cell s' i j) \<and>
           (\<forall>i<9. \<forall>j<9. is_trivial_cell s i j \<longrightarrow>
              Suc (empty_count (sudoku (place_number s i j (argmax_bool (bitmap s ! i ! j) + 1))))
                = empty_count (sudoku s))"
proof -
  obtain s' where r: "trivial_moves s = Some s'" using trivial_moves_total [OF assms] by blast
  note res = trivial_moves_result [OF r]
  have le: "empty_count (sudoku s') \<le> empty_count (sudoku s)"
    using forced_steps_props [OF conjunct1 [OF res] assms] by simp
  have stable: "\<not> is_trivial_cell s' i j" if "i < 9" "j < 9" for i j
    using trivial_pass_props(3) [OF conjunct2 [OF res] _ that] by simp
  have dec: "Suc (empty_count (sudoku (place_number s i j (argmax_bool (bitmap s ! i ! j) + 1))))
                = empty_count (sudoku s)"
    if "i < 9" "j < 9" "is_trivial_cell s i j" for i j
  proof -
    have "forced_step s (place_number s i j (argmax_bool (bitmap s ! i ! j) + 1))"
      using that by (auto simp: forced_step_def)
    then show ?thesis by (rule forced_step_props(2) [OF assms])
  qed
  show ?thesis using r le stable dec by blast
qed

theorem trivial_moves_terminates_witness:
  "wf_solver (SudokuSolver row0) \<and> is_trivial_cell (SudokuSolver row0) 0 8 \<and>
   empty_count (sudoku (SudokuSolver row0)) = 73 \<and>
   (\<exists>s'. trivial_moves (SudokuSolver row0) = Some s' \<and>
      sudoku s' = [1, 2, 3, 4, 5, 6, 7, 8, 9] # replicate 8 (replicate 9 0) \<and>
      empty_count (sudoku s') \<le> empty_count (sudoku (SudokuSolver row0)) \<and>
      \<not> is_trivial_cell s' 0 8) \<and>
   Suc (empty_count (sudoku (place_number (SudokuSolver row0) 0 8
          (argmax_bool (bitmap (SudokuSolver row0) ! 0 ! 8) + 1)))) = 73"
proof -
  note w = wf_row0 and t = trivial_row0 and e = empty_count_row0
  obtain s' where s': "trivial_moves (SudokuSolver row0) = Some s'"
      "empty_count (sudoku s') \<le> empty_count (sudoku (SudokuSolver row0))"
      "\<forall>i<9. \<forall>j<9. \<not> is_trivial_cell s' i j"
      "\<forall>i<9. \<forall>j<9. is_trivial_cell (SudokuSolver row0) i j \<longrightarrow>
         Suc (empty_count (sudoku (place_number (SudokuSolver row0) i j
               (argmax_bool (bitmap (SudokuSolver row0) ! i ! j) + 1))))
           = empty_count (sudoku (SudokuSolver row0))"
    using trivial_moves_terminates [OF w] by blast
  have g: "sudoku s' = [1, 2, 3, 4, 5, 6, 7, 8, 9] # replicate 8 (replicate 9 0)"
    using trivial_moves_row0 s'(1) by simp
  have n: "\<not> is_trivial_cell s' 0 8" using s'(3) by simp
  have d: "Suc (empty_count (sudoku (place_number (SudokuSolver row0) 0 8
          (argmax_bool (bitmap (SudokuSolver row0) ! 0 ! 8) + 1)))) = 73"
    using s'(4) t e by simp
  show ?thesis using w t e s'(1,2) g n d by blast
qed

text \<open>
  C8. Constraint propagation is idempotent: on every solver state \<^verbatim>\<open>trivial_moves\<close>
  returns a state on which a second run returns the same state, with the same grid and
  the same candidate flags.
\<close>

theorem trivial_moves_idempotent:
  assumes "wf_solver s"
  shows "\<exists>s'. trivial_moves s = Some s' \<and> trivial_moves s' = Some s' \<and>
              Option.bind (trivial_moves s) trivial_moves = trivial_moves s"
proof -
  obtain s' where r: "trivial_moves s = Some s'" using trivial_moves_total [OF assms] by blast
  have p: "trivial_pass s' = (False, s')" using trivial_moves_result [OF r] by simp
  have "trivial_moves s' = Some s'" using p by (subst trivial_moves.simps) simp
  then show ?thesis using r by simp
qed

theorem trivial_moves_idempotent_witness:
  "sudoku (SudokuSolver row0) ! 0 ! 8 = 0 \<and>
   (\<exists>s'. trivial_moves (SudokuSolver row0) = Some s' \<and> trivial_moves s' = Some s' \<and>
      sudoku s' ! 0 ! 8 = 9)"
proof -
  obtain s' where s': "trivial_moves (SudokuSolver row0) = Some s'" "trivial_moves s' = Some s'"
    using trivial_moves_idempotent [OF wf_row0] by blast
  have "sudoku s' = [1, 2, 3, 4, 5, 6, 7, 8, 9] # replicate 8 (replicate 9 0)"
    using trivial_moves_row0 s'(1) by simp
  then have "sudoku s' ! 0 ! 8 = 9" by simp
  moreover have "sudoku (SudokuSolver row0) ! 0 ! 8 = 0" by code_simp
  ultimately show ?thesis using s' by blast
qed

section \<open>Rows, columns and boxes\<close>

lemma in_take_drop:
  "(y \<in> set (take n (drop b xs))) = (\<exists>k. b \<le> k \<and> k < b + n \<and> k < length xs \<and> xs ! k = y)"
proof
  assume "y \<in> set (take n (drop b xs))"
  then obtain m where m: "m < length (take n (drop b xs))" "take n (drop b xs) ! m = y"
    by (auto simp: in_set_conv_nth)
  have "m < n" "b + m < length xs" using m(1) by auto
  moreover have "b \<le> length xs" using m(1) by auto
  then have "xs ! (b + m) = y" using m by simp
  ultimately show "\<exists>k. b \<le> k \<and> k < b + n \<and> k < length xs \<and> xs ! k = y"
    using \<open>xs ! (b + m) = y\<close> by (intro exI [of _ "b + m"]) simp
next
  assume "\<exists>k. b \<le> k \<and> k < b + n \<and> k < length xs \<and> xs ! k = y"
  then obtain k where k: "b \<le> k" "k < b + n" "k < length xs" "xs ! k = y" by blast
  have kb: "k - b < n" "k - b < length xs - b" "b + (k - b) = k" "b \<le> length xs"
    using k by arith+
  have "k - b < length (take n (drop b xs))" using kb(1,2) by simp
  moreover have "take n (drop b xs) ! (k - b) = y" using kb k(4) by simp
  ultimately show "y \<in> set (take n (drop b xs))" by (metis nth_mem)
qed

lemma div3_range: "(i div 3 * 3 \<le> a \<and> a < i div 3 * 3 + 3) = (a div 3 = i div 3)" for a i :: nat
  by arith

text \<open>A digit occurs in a row, column or box exactly when a cell of that unit holds it.\<close>

lemma in_row_iff:
  assumes "wf_grid g" "i < 9"
  shows "(x \<in> set (g ! i)) = (\<exists>c<9. g ! i ! c = x)"
  using wf_grid_lengths(2) [OF assms] by (auto simp: in_set_conv_nth)

lemma in_column_iff:
  assumes "wf_grid g"
  shows "(x \<in> set (column g j)) = (\<exists>a<9. g ! a ! j = x)"
proof -
  have "(x \<in> set (column g j)) = (\<exists>a<length (column g j). column g j ! a = x)"
    by (rule in_set_conv_nth)
  also have "\<dots> = (\<exists>a<9. g ! a ! j = x)"
    using wf_grid_lengths(1) [OF assms] by (auto simp: column_def)
  finally show ?thesis .
qed

lemma in_box_iff:
  assumes "wf_grid g" "i < 9" "j < 9"
  shows "(x \<in> set (box g (i div 3 * 3) (j div 3 * 3))) =
         (\<exists>a<9. \<exists>c<9. a div 3 = i div 3 \<and> c div 3 = j div 3 \<and> g ! a ! c = x)"
proof
  let ?bi = "i div 3 * 3" and ?bj = "j div 3 * 3"
  {
    assume "x \<in> set (box g ?bi ?bj)"
    then obtain r where r: "r \<in> set (take 3 (drop ?bi g))" "x \<in> set (take 3 (drop ?bj r))"
      by (auto simp: box_def)
    obtain a where a: "?bi \<le> a" "a < ?bi + 3" "a < length g" "g ! a = r"
      using r(1) unfolding in_take_drop by blast
    obtain c where c: "?bj \<le> c" "c < ?bj + 3" "c < length r" "r ! c = x"
      using r(2) unfolding in_take_drop by blast
    have a9: "a < 9" using a(3) wf_grid_lengths(1) [OF assms(1)] by simp
    have c9: "c < 9" using c(3) a(4) wf_grid_lengths(2) [OF assms(1) a9] by simp
    have "a div 3 = i div 3" using a(1,2) div3_range by blast
    moreover have "c div 3 = j div 3" using c(1,2) div3_range by blast
    ultimately show "\<exists>a<9. \<exists>c<9. a div 3 = i div 3 \<and> c div 3 = j div 3 \<and> g ! a ! c = x"
      using a9 c9 a(4) c(4) by blast
  }
  {
    assume "\<exists>a<9. \<exists>c<9. a div 3 = i div 3 \<and> c div 3 = j div 3 \<and> g ! a ! c = x"
    then obtain a c where ac: "a < 9" "c < 9" "a div 3 = i div 3" "c div 3 = j div 3" "g ! a ! c = x"
      by blast
    have ra: "?bi \<le> a \<and> a < ?bi + 3" using ac(3) div3_range by blast
    have rc: "?bj \<le> c \<and> c < ?bj + 3" using ac(4) div3_range by blast
    have "g ! a \<in> set (take 3 (drop ?bi g))"
      unfolding in_take_drop using ra ac(1) wf_grid_lengths(1) [OF assms(1)] by auto
    moreover have "x \<in> set (take 3 (drop ?bj (g ! a)))"
      unfolding in_take_drop using rc ac(2,5) wf_grid_lengths(2) [OF assms(1) ac(1)] by auto
    ultimately show "x \<in> set (box g ?bi ?bj)" by (auto simp: box_def)
  }
qed

section \<open>The heuristics\<close>

lemma all_cells_enum: "all_cells = map (\<lambda>k. (k div 9, k mod 9)) [0..<81]"
  by code_simp

lemma length_all_cells: "length all_cells = 81"
  by (simp add: all_cells_enum)

lemma all_cells_nth: "k < 81 \<Longrightarrow> all_cells ! k = (k div 9, k mod 9)"
  by (simp add: all_cells_enum)

lemma argmax_from_max:
  assumes "best < length pre" "pre ! best = bv" "\<forall>y\<in>set pre. y \<le> bv"
  shows "argmax_from xs (length pre) best bv < length (pre @ xs) \<and>
         (\<forall>y\<in>set (pre @ xs). y \<le> (pre @ xs) ! argmax_from xs (length pre) best bv)"
  using assms
proof (induction xs arbitrary: pre best bv)
  case Nil
  then show ?case by simp
next
  case (Cons x xs)
  show ?case
  proof (cases "bv < x")
    case True
    have a: "length pre < length (pre @ [x])" by simp
    have b: "(pre @ [x]) ! length pre = x" by simp
    have c: "\<forall>y\<in>set (pre @ [x]). y \<le> x" using Cons.prems(3) True by auto
    show ?thesis using Cons.IH [OF a b c] True by simp
  next
    case False
    have a: "best < length (pre @ [x])" using Cons.prems(1) by simp
    have b: "(pre @ [x]) ! best = bv" using Cons.prems(1,2) by (simp add: nth_append)
    have c: "\<forall>y\<in>set (pre @ [x]). y \<le> bv" using Cons.prems(3) False by auto
    show ?thesis using Cons.IH [OF a b c] False by simp
  qed
qed

lemma argmax_max:
  assumes "xs \<noteq> []"
  shows "argmax xs < length xs" and "\<And>y. y \<in> set xs \<Longrightarrow> y \<le> xs ! argmax xs"
proof -
  obtain x ys where xs: "xs = x # ys" using assms by (cases xs) auto
  have m: "argmax_from ys (length [x]) 0 x < length ([x] @ ys) \<and>
           (\<forall>y\<in>set ([x] @ ys). y \<le> ([x] @ ys) ! argmax_from ys (length [x]) 0 x)"
    by (rule argmax_from_max) simp_all
  show "argmax xs < length xs" using m by (simp add: argmax_def xs)
  show "y \<le> xs ! argmax xs" if "y \<in> set xs" for y using m that by (auto simp: argmax_def xs)
qed

lemma impact_score_nonneg: "0 \<le> impact_score s i j"
  by (simp add: impact_score_def Let_def)

lemma length_impact_matrix: "length (impact_matrix s) = 81"
  by (simp add: impact_matrix_def length_all_cells)

lemma impact_matrix_nth:
  "k < 81 \<Longrightarrow> impact_matrix s ! k =
     (if sudoku s ! (k div 9) ! (k mod 9) = 0 then impact_score s (k div 9) (k mod 9) else - 1)"
  by (simp add: impact_matrix_def length_all_cells all_cells_nth)

lemma least_options_range:
  assumes "advanced_least_options_cell s = Some (i, j)"
  shows "i < 9" "j < 9"
proof -
  let ?k = "argmax (impact_matrix s)"
  have "impact_matrix s \<noteq> []" using length_impact_matrix [of s] by auto
  then have k: "?k < 81" using argmax_max(1) [of "impact_matrix s"] length_impact_matrix [of s] by simp
  have "i = ?k div 9" "j = ?k mod 9"
    using assms by (auto simp: advanced_least_options_cell_def Let_def split: if_splits)
  then show "i < 9" "j < 9" using k by simp_all
qed

lemma not_solved_empty_cell:
  assumes "wf_solver s" "\<not> is_solved s"
  shows "\<exists>a<9. \<exists>c<9. sudoku s ! a ! c = 0"
proof -
  have g: "wf_grid (sudoku s)" using assms(1) by (simp add: wf_solver_def)
  show ?thesis using assms(2) empty_count_zero [OF g] by (auto simp: is_solved_def)
qed

lemma least_options_empty:
  assumes "wf_solver s" "\<not> is_solved s"
  shows "\<exists>i j. advanced_least_options_cell s = Some (i, j) \<and> i < 9 \<and> j < 9 \<and> sudoku s ! i ! j = 0"
proof -
  let ?m = "impact_matrix s"
  let ?k = "argmax ?m"
  obtain a c where ac: "a < 9" "c < 9" "sudoku s ! a ! c = 0"
    using not_solved_empty_cell [OF assms] by blast
  have ne: "?m \<noteq> []" using length_impact_matrix [of s] by auto
  have k: "?k < 81" using argmax_max(1) [OF ne] length_impact_matrix [of s] by simp
  have "(a, c) \<in> set all_cells" using ac by (simp add: set_all_cells)
  then have "(\<lambda>(i, j). if sudoku s ! i ! j = 0 then impact_score s i j else - 1) (a, c) \<in> set ?m"
    unfolding impact_matrix_def by (simp only: set_map) (rule imageI)
  then have "impact_score s a c \<in> set ?m" using ac(3) by simp
  then have "impact_score s a c \<le> ?m ! ?k" by (rule argmax_max(2) [OF ne])
  then have "0 \<le> ?m ! ?k" using impact_score_nonneg [of s a c] by simp
  then have e: "sudoku s ! (?k div 9) ! (?k mod 9) = 0"
    unfolding impact_matrix_nth [OF k] by (auto split: if_splits)
  have "empty_count (sudoku s) \<noteq> 0" using assms(2) by (simp add: is_solved_def)
  then have "list_ex (\<lambda>x. x = 0) (concat (sudoku s))"
    unfolding empty_count_def list_ex_iff by (auto simp: filter_empty_conv)
  then have "advanced_least_options_cell s = Some (?k div 9, ?k mod 9)"
    by (simp add: advanced_least_options_cell_def Let_def)
  moreover have "?k div 9 < 9" "?k mod 9 < 9" using k by simp_all
  ultimately show ?thesis using e by blast
qed

lemma possible_numbers_iff:
  "(n \<in> set (possible_numbers s i j)) = (1 \<le> n \<and> n \<le> 9 \<and> can_place_number s i j n)"
proof
  assume "n \<in> set (possible_numbers s i j)"
  then obtain e where e: "e < 9" "bitmap s ! i ! j ! e" "n = e + 1"
    by (auto simp: possible_numbers_def)
  then show "1 \<le> n \<and> n \<le> 9 \<and> can_place_number s i j n"
    by (simp add: can_place_number_def)
next
  assume h: "1 \<le> n \<and> n \<le> 9 \<and> can_place_number s i j n"
  then have "n - 1 < 9" "bitmap s ! i ! j ! (n - 1)" "n = (n - 1) + 1"
    by (auto simp: can_place_number_def)
  then show "n \<in> set (possible_numbers s i j)"
    unfolding possible_numbers_def by (metis (mono_tags, lifting) atLeastLessThan_iff imageI
        le0 mem_Collect_eq set_filter set_map set_upt)
qed

lemma smart_number_ordering_iff:
  "(n \<in> set (smart_number_ordering s i j)) = (1 \<le> n \<and> n \<le> 9 \<and> can_place_number s i j n)"
  by (simp add: smart_number_ordering_def possible_numbers_iff)

section \<open>Claim about the candidate ordering\<close>





lemma consistent_fresh_solver: "consistent fresh_solver"
proof (rule consistentI [OF wf_fresh_solver])
  show "sudoku fresh_solver ! a ! c \<le> 9" if "a < 9" "c < 9" for a c
    using that by (simp add: fresh_solver_def)
  show "bitmap fresh_solver ! a ! c ! e =
       (sudoku fresh_solver ! a ! c = 0 \<and>
        \<not> (\<exists>p<9. \<exists>q<9. shares_unit (p, q) (a, c) \<and> sudoku fresh_solver ! p ! q = e + 1))"
    if "a < 9" "c < 9" "e < 9" for a c e
    using that by (simp add: fresh_solver_def)
  show "no_conflict (sudoku fresh_solver)"
    by (rule no_conflictI) (simp add: fresh_solver_def)
qed


section \<open>Construction from consistent clues\<close>

lemma valid_cluesD:
  assumes "valid_clues g"
  shows "wf_grid g" and "no_conflict g" and "\<And>a c. a < 9 \<Longrightarrow> c < 9 \<Longrightarrow> g ! a ! c \<le> 9"
proof -
  show w: "wf_grid g" and "no_conflict g" using assms by (simp_all add: valid_clues_def)
  show "g ! a ! c \<le> 9" if "a < 9" "c < 9" for a c
  proof -
    have "g ! a \<in> set g" "g ! a ! c \<in> set (g ! a)"
      using that w by (simp_all add: wf_grid_lengths)
    then show ?thesis using assms unfolding valid_clues_def list_all_iff by blast
  qed
qed

lemma place_clue_pair:
  "place_clue g (i, j) s = (if g ! i ! j \<noteq> 0 then place_number s i j (g ! i ! j) else s)"
  by (simp add: place_clue_def)

lemma place_clues_invariant:
  assumes "valid_clues g"
  shows "consistent s \<Longrightarrow> (\<forall>a<9. \<forall>c<9. sudoku s ! a ! c = (if (a, c) \<in> D then g ! a ! c else 0)) \<Longrightarrow>
         distinct cs \<Longrightarrow> set cs \<inter> D = {} \<Longrightarrow> set cs \<subseteq> set all_cells \<Longrightarrow>
         consistent (fold (place_clue g) cs s) \<and>
         (\<forall>a<9. \<forall>c<9. sudoku (fold (place_clue g) cs s) ! a ! c =
            (if (a, c) \<in> D \<union> set cs then g ! a ! c else 0))"
proof (induction cs arbitrary: s D)
  case Nil
  then show ?case by simp
next
  case (Cons x cs)
  obtain i j where x: "x = (i, j)" by (cases x) auto
  have ij: "i < 9" "j < 9" using Cons.prems(5) x by (auto simp: set_all_cells)
  have notD: "(i, j) \<notin> D" using Cons.prems(4) x by auto
  have empty: "sudoku s ! i ! j = 0" using Cons.prems(2) ij notD by simp
  note v = valid_cluesD [OF assms]
  note d = consistentD [OF Cons.prems(1)]
  let ?s1 = "place_clue g (i, j) s"
  have step: "consistent ?s1 \<and>
      (\<forall>a<9. \<forall>c<9. sudoku ?s1 ! a ! c = (if (a, c) \<in> insert (i, j) D then g ! a ! c else 0))"
  proof (cases "g ! i ! j = 0")
    case True
    then have "?s1 = s" by (simp add: place_clue_pair)
    then show ?thesis using Cons.prems(1,2) True empty by auto
  next
    case False
    let ?d = "g ! i ! j"
    have s1: "?s1 = place_number s i j ?d" using False by (simp add: place_clue_pair)
    have r: "1 \<le> ?d" "?d \<le> 9" using False v(3) [OF ij] by simp_all
    have e: "?d - 1 < 9" using r by arith
    have "\<not> (\<exists>p<9. \<exists>q<9. shares_unit (p, q) (i, j) \<and> sudoku s ! p ! q = ?d - 1 + 1)"
    proof
      assume "\<exists>p<9. \<exists>q<9. shares_unit (p, q) (i, j) \<and> sudoku s ! p ! q = ?d - 1 + 1"
      then obtain p q where pq: "p < 9" "q < 9" "shares_unit (p, q) (i, j)" "sudoku s ! p ! q = ?d"
        using r by auto
      have inD: "(p, q) \<in> D" using Cons.prems(2) pq(1,2,4) False by (auto split: if_splits)
      then have ne: "\<not> (i = p \<and> j = q)" using notD by auto
      have "g ! p ! q = ?d" using Cons.prems(2) pq(1,2,4) inD by simp
      moreover have "shares_unit (i, j) (p, q)" using pq(3) shares_unit_sym by blast
      ultimately show False using no_conflictD [OF v(2) ij pq(1,2) False ne] by simp
    qed
    then have "bitmap s ! i ! j ! (?d - 1)" using d(7) [OF ij e] empty by blast
    then have cp: "can_place_number s i j ?d" by (simp add: can_place_number_def)
    have c1: "consistent ?s1" unfolding s1 by (rule consistent_place_number [OF Cons.prems(1) ij r cp])
    have "sudoku ?s1 ! a ! c = (if (a, c) \<in> insert (i, j) D then g ! a ! c else 0)"
      if "a < 9" "c < 9" for a c
      unfolding s1 using place_number_sudoku [OF d(1) that, of i j ?d] Cons.prems(2) that by auto
    then show ?thesis using c1 by blast
  qed
  have f: "fold (place_clue g) (x # cs) s = fold (place_clue g) cs ?s1" by (simp add: x)
  have dis: "distinct cs" "set cs \<inter> insert (i, j) D = {}" "set cs \<subseteq> set all_cells"
    using Cons.prems(3,4,5) x by auto
  have u: "insert (i, j) D \<union> set cs = D \<union> set (x # cs)" using x by auto
  show ?case unfolding f
    using Cons.IH [OF conjunct1 [OF step] conjunct2 [OF step] dis] unfolding u by blast
qed

lemma grid_eqI:
  assumes "wf_grid g" "wf_grid h" "\<And>a c. a < 9 \<Longrightarrow> c < 9 \<Longrightarrow> g ! a ! c = h ! a ! c"
  shows "g = h"
proof (rule nth_equalityI)
  show "length g = length h" using assms(1,2) by (simp add: wf_grid_lengths)
next
  fix a assume "a < length g"
  then have a: "a < 9" using assms(1) by (simp add: wf_grid_lengths)
  show "g ! a = h ! a"
  proof (rule nth_equalityI)
    show "length (g ! a) = length (h ! a)" using assms(1,2) a by (simp add: wf_grid_lengths)
  next
    fix c assume "c < length (g ! a)"
    then have "c < 9" using assms(1) a by (simp add: wf_grid_lengths)
    then show "g ! a ! c = h ! a ! c" using a by (rule assms(3) [rotated])
  qed
qed

lemma SudokuSolver_consistent:
  assumes "valid_clues g"
  shows "consistent (SudokuSolver g)" and "sudoku (SudokuSolver g) = g"
proof -
  have z: "\<forall>a<9. \<forall>c<9. sudoku fresh_solver ! a ! c = (if (a, c) \<in> {} then g ! a ! c else 0)"
    by (simp add: fresh_solver_def)
  note inv = place_clues_invariant [OF assms consistent_fresh_solver z distinct_all_cells _ subset_refl]
  have c: "consistent (SudokuSolver g)" and
    v: "\<forall>a<9. \<forall>c<9. sudoku (SudokuSolver g) ! a ! c = (if (a, c) \<in> {} \<union> set all_cells then g ! a ! c else 0)"
    using inv by (simp_all add: SudokuSolver_def)
  show "consistent (SudokuSolver g)" by (rule c)
  have w: "wf_grid (sudoku (SudokuSolver g))"
    using consistentD(1) [OF c] by (simp add: wf_solver_def)
  show "sudoku (SudokuSolver g) = g"
  proof (rule grid_eqI [OF w valid_cluesD(1) [OF assms]])
    fix a c :: nat assume "a < 9" "c < 9"
    then show "sudoku (SudokuSolver g) ! a ! c = g ! a ! c" using v by (simp add: set_all_cells)
  qed
qed

lemma SudokuSolver_empty: "SudokuSolver (replicate 9 (replicate 9 0)) = fresh_solver"
proof -
  have "fold (place_clue (replicate 9 (replicate 9 0))) cs s = s" if "set cs \<subseteq> set all_cells" for cs s
    using that by (induction cs arbitrary: s) (auto simp: place_clue_def set_all_cells)
  then show ?thesis by (simp add: SudokuSolver_def)
qed

section \<open>Solutions that extend a state\<close>

lemma extends_iff: "extends G g = (\<forall>a<9. \<forall>c<9. g ! a ! c = 0 \<or> G ! a ! c = g ! a ! c)"
  by (simp add: extends_def list_all_all_cells)

lemma solutionD:
  assumes "solution G"
  shows "wf_grid G" and "no_conflict G"
    and "\<And>a c. a < 9 \<Longrightarrow> c < 9 \<Longrightarrow> 1 \<le> G ! a ! c \<and> G ! a ! c \<le> 9"
proof -
  show w: "wf_grid G" and "no_conflict G" using assms by (simp_all add: solution_def)
  show "1 \<le> G ! a ! c \<and> G ! a ! c \<le> 9" if "a < 9" "c < 9" for a c
  proof -
    have "G ! a \<in> set G" "G ! a ! c \<in> set (G ! a)"
      using that w by (simp_all add: wf_grid_lengths)
    then show ?thesis using assms unfolding solution_def list_all_iff by blast
  qed
qed

lemma solution_candidate:
  assumes "consistent s" "solution G" "extends G (sudoku s)" "a < 9" "c < 9" "sudoku s ! a ! c = 0"
  shows "can_place_number s a c (G ! a ! c)"
proof -
  note d = consistentD [OF assms(1)] and so = solutionD [OF assms(2)]
  let ?d = "G ! a ! c"
  have r: "1 \<le> ?d" "?d \<le> 9" using so(3) [OF assms(4,5)] by simp_all
  have e: "?d - 1 < 9" using r by arith
  have "\<not> (\<exists>p<9. \<exists>q<9. shares_unit (p, q) (a, c) \<and> sudoku s ! p ! q = ?d - 1 + 1)"
  proof
    assume "\<exists>p<9. \<exists>q<9. shares_unit (p, q) (a, c) \<and> sudoku s ! p ! q = ?d - 1 + 1"
    then obtain p q where pq: "p < 9" "q < 9" "shares_unit (p, q) (a, c)" "sudoku s ! p ! q = ?d"
      using r by auto
    have nz: "sudoku s ! p ! q \<noteq> 0" using pq(4) r by simp
    have "sudoku s ! p ! q = 0 \<or> G ! p ! q = sudoku s ! p ! q"
      using assms(3) pq(1,2) unfolding extends_iff by blast
    with nz have "G ! p ! q = sudoku s ! p ! q" by simp
    then have "G ! p ! q = ?d" by (simp only: pq(4))
    moreover have "\<not> (a = p \<and> c = q)" using nz assms(6) by auto
    moreover have "shares_unit (a, c) (p, q)" using pq(3) shares_unit_sym by blast
    moreover have "?d \<noteq> 0" using r by simp
    ultimately show False using no_conflictD [OF so(2) assms(4,5) pq(1,2)] by blast
  qed
  then have "bitmap s ! a ! c ! (?d - 1)" using d(7) [OF assms(4,5) e] assms(6) by blast
  then show ?thesis by (simp add: can_place_number_def)
qed

lemma extends_place_number:
  assumes "wf_solver s" "extends G (sudoku s)" "i < 9" "j < 9"
  shows "extends G (sudoku (place_number s i j (G ! i ! j)))"
  unfolding extends_iff
proof (intro allI impI)
  fix a c :: nat assume ac: "a < 9" "c < 9"
  show "sudoku (place_number s i j (G ! i ! j)) ! a ! c = 0 \<or>
        G ! a ! c = sudoku (place_number s i j (G ! i ! j)) ! a ! c"
    using place_number_sudoku [OF assms(1) ac, of i j "G ! i ! j"] assms(2) ac
    unfolding extends_iff by auto
qed

lemma extends_forced_step:
  assumes "consistent s" "solution G" "extends G (sudoku s)" "forced_step s s'"
  shows "extends G (sudoku s')"
proof -
  obtain i j where ij: "i < 9" "j < 9" "is_trivial_cell s i j"
      and s': "s' = place_number s i j (argmax_bool (bitmap s ! i ! j) + 1)"
    using assms(4) by (auto simp: forced_step_def)
  note w = consistentD(1) [OF assms(1)]
  note t = trivial_cell_can_place [OF w ij]
  note so = solutionD(3) [OF assms(2) ij(1,2)]
  have "can_place_number s i j (G ! i ! j)"
    by (rule solution_candidate [OF assms(1-3) ij(1,2) t(3)])
  then have "bitmap s ! i ! j ! (G ! i ! j - 1)" by (simp add: can_place_number_def)
  moreover have "G ! i ! j - 1 < 9" using so by arith
  ultimately have "G ! i ! j - 1 = argmax_bool (bitmap s ! i ! j)" by (rule t(4) [rotated])
  then have "argmax_bool (bitmap s ! i ! j) + 1 = G ! i ! j" using so by arith
  then show ?thesis unfolding s' using extends_place_number [OF w assms(3) ij(1,2)] by simp
qed

lemma extends_forced_steps:
  "forced_step\<^sup>*\<^sup>* s s' \<Longrightarrow> consistent s \<Longrightarrow> solution G \<Longrightarrow> extends G (sudoku s) \<Longrightarrow>
   consistent s' \<and> extends G (sudoku s')"
proof (induction rule: rtranclp_induct)
  case base
  then show ?case by simp
next
  case (step y z)
  then have y: "consistent y" "extends G (sudoku y)" by simp_all
  show ?case
    using consistent_forced_step [OF y(1) step.hyps(2)]
      extends_forced_step [OF y(1) step.prems(2) y(2) step.hyps(2)] by simp
qed

section \<open>The search without visualization\<close>

lemma backtrack_Enter:
  "backtrack_frames (Enter s) =
     (if is_solved s then Some (Some (sudoku s), s)
      else (case advanced_least_options_cell s of
              None \<Rightarrow> Some (None, s)
            | Some (i, j) \<Rightarrow> backtrack_frames (Try s i j (smart_number_ordering s i j))))"
  by (subst backtrack_frames.simps) simp

lemma backtrack_Try_Nil: "backtrack_frames (Try s i j []) = Some (None, s)"
  by (subst backtrack_frames.simps) simp

lemma backtrack_Try_Cons:
  "backtrack_frames (Try s i j (n # ns)) =
     (if can_place_number s i j n
      then Option.bind (trivial_moves (place_number s i j n)) (\<lambda>s1.
             Option.bind (backtrack_frames (Enter s1)) (\<lambda>(result, s2).
               case result of
                 Some g \<Rightarrow> Some (Some g, s2)
               | None \<Rightarrow>
                   backtrack_frames
                     (Try (s2\<lparr>backtrack_count := backtrack_count s2 + 1,
                              bitmap := bitmap s, sudoku := sudoku s\<rparr>) i j ns)))
      else backtrack_frames (Try s i j ns))"
  by (subst backtrack_frames.simps) simp

text \<open>The runs of the search, as an induction rule: one case for each way a frame returns.\<close>

lemma backtrack_frames_induct [consumes 1, case_names solved stuck enter nil success retry skip]:
  assumes run: "backtrack_frames f = Some y"
    and solved: "\<And>s. is_solved s \<Longrightarrow> P (Enter s) (Some (sudoku s), s)"
    and stuck: "\<And>s. \<not> is_solved s \<Longrightarrow> advanced_least_options_cell s = None \<Longrightarrow> P (Enter s) (None, s)"
    and enter: "\<And>s i j y. \<not> is_solved s \<Longrightarrow> advanced_least_options_cell s = Some (i, j) \<Longrightarrow>
        P (Try s i j (smart_number_ordering s i j)) y \<Longrightarrow> P (Enter s) y"
    and nil: "\<And>s i j. P (Try s i j []) (None, s)"
    and success: "\<And>s i j n ns s1 g s2. can_place_number s i j n \<Longrightarrow>
        trivial_moves (place_number s i j n) = Some s1 \<Longrightarrow> P (Enter s1) (Some g, s2) \<Longrightarrow>
        P (Try s i j (n # ns)) (Some g, s2)"
    and retry: "\<And>s i j n ns s1 s2 y. can_place_number s i j n \<Longrightarrow>
        trivial_moves (place_number s i j n) = Some s1 \<Longrightarrow> P (Enter s1) (None, s2) \<Longrightarrow>
        P (Try (s2\<lparr>backtrack_count := backtrack_count s2 + 1,
                   bitmap := bitmap s, sudoku := sudoku s\<rparr>) i j ns) y \<Longrightarrow>
        P (Try s i j (n # ns)) y"
    and skip: "\<And>s i j n ns y. \<not> can_place_number s i j n \<Longrightarrow> P (Try s i j ns) y \<Longrightarrow>
        P (Try s i j (n # ns)) y"
  shows "P f y"
proof (rule backtrack_frames.raw_induct [where P = P, OF _ run])
  fix bf :: "frame \<Rightarrow> (grid option \<times> solver) option" and f y
  assume ih: "\<And>x z. bf x = Some z \<Longrightarrow> P x z"
  assume eq: "(case f of
        Enter s \<Rightarrow>
          if is_solved s then Some (Some (sudoku s), s)
          else (case advanced_least_options_cell s of
                  None \<Rightarrow> Some (None, s)
                | Some (i, j) \<Rightarrow> bf (Try s i j (smart_number_ordering s i j)))
      | Try s i j [] \<Rightarrow> Some (None, s)
      | Try s i j (number # numbers) \<Rightarrow>
          if can_place_number s i j number
          then Option.bind (trivial_moves (place_number s i j number)) (\<lambda>s1.
                 Option.bind (bf (Enter s1)) (\<lambda>(result, s2).
                   case result of
                     Some g \<Rightarrow> Some (Some g, s2)
                   | None \<Rightarrow>
                       bf (Try (s2\<lparr>backtrack_count := backtrack_count s2 + 1,
                                  bitmap := bitmap s, sudoku := sudoku s\<rparr>) i j numbers)))
          else bf (Try s i j numbers)) = Some y"
  show "P f y"
  proof (cases f)
    case (Enter s)
    show ?thesis
    proof (cases "is_solved s")
      case True
      then have "y = (Some (sudoku s), s)" using eq Enter by simp
      then show ?thesis using solved [OF True] Enter by simp
    next
      case False
      show ?thesis
      proof (cases "advanced_least_options_cell s")
        case None
        then have "y = (None, s)" using eq Enter False by simp
        then show ?thesis using stuck [OF False None] Enter by simp
      next
        case (Some c)
        obtain i j where c: "c = (i, j)" by (cases c) auto
        have "bf (Try s i j (smart_number_ordering s i j)) = Some y"
          using eq Enter False Some c by simp
        then have "P (Try s i j (smart_number_ordering s i j)) y" by (rule ih)
        then show ?thesis using enter [OF False] Some c Enter by simp
      qed
    qed
  next
    case (Try s i j numbers)
    show ?thesis
    proof (cases numbers)
      case Nil
      then have "y = (None, s)" using eq Try by simp
      then show ?thesis using nil Try Nil by simp
    next
      case (Cons n ns)
      show ?thesis
      proof (cases "can_place_number s i j n")
        case False
        then have "bf (Try s i j ns) = Some y" using eq Try Cons by simp
        then have "P (Try s i j ns) y" by (rule ih)
        then show ?thesis using skip [OF False] Try Cons by simp
      next
        case True
        have b: "Option.bind (trivial_moves (place_number s i j n)) (\<lambda>s1.
                 Option.bind (bf (Enter s1)) (\<lambda>(result, s2).
                   case result of
                     Some g \<Rightarrow> Some (Some g, s2)
                   | None \<Rightarrow>
                       bf (Try (s2\<lparr>backtrack_count := backtrack_count s2 + 1,
                                  bitmap := bitmap s, sudoku := sudoku s\<rparr>) i j ns))) = Some y"
          using eq Try Cons True by simp
        then obtain s1 where s1: "trivial_moves (place_number s i j n) = Some s1"
          and b1: "Option.bind (bf (Enter s1)) (\<lambda>(result, s2).
                   case result of
                     Some g \<Rightarrow> Some (Some g, s2)
                   | None \<Rightarrow>
                       bf (Try (s2\<lparr>backtrack_count := backtrack_count s2 + 1,
                                  bitmap := bitmap s, sudoku := sudoku s\<rparr>) i j ns)) = Some y"
          by (auto simp: bind_eq_Some_conv)
        then obtain r s2 where r: "bf (Enter s1) = Some (r, s2)"
          and b2: "(case r of
                     Some g \<Rightarrow> Some (Some g, s2)
                   | None \<Rightarrow>
                       bf (Try (s2\<lparr>backtrack_count := backtrack_count s2 + 1,
                                  bitmap := bitmap s, sudoku := sudoku s\<rparr>) i j ns)) = Some y"
          by (auto simp: bind_eq_Some_conv)
        have pr: "P (Enter s1) (r, s2)" using r by (rule ih)
        show ?thesis
        proof (cases r)
          case None
          then have "bf (Try (s2\<lparr>backtrack_count := backtrack_count s2 + 1,
                                  bitmap := bitmap s, sudoku := sudoku s\<rparr>) i j ns) = Some y"
            using b2 by simp
          then have "P (Try (s2\<lparr>backtrack_count := backtrack_count s2 + 1,
                                  bitmap := bitmap s, sudoku := sudoku s\<rparr>) i j ns) y" by (rule ih)
          then show ?thesis using retry [OF True s1] pr None Try Cons by simp
        next
          case (Some g)
          then have "y = (Some g, s2)" using b2 by simp
          then show ?thesis using success [OF True s1] pr Some Try Cons by simp
        qed
      qed
    qed
  qed
qed

lemma forced_steps_counters:
  "forced_step\<^sup>*\<^sup>* s s' \<Longrightarrow> attempts s' = attempts s \<and> backtrack_count s' = backtrack_count s"
  by (induction rule: rtranclp_induct) (auto simp: forced_step_def place_number_counters)

lemma trivial_moves_counters:
  assumes "trivial_moves s = Some s'"
  shows "attempts s' = attempts s" "backtrack_count s' = backtrack_count s"
  using forced_steps_counters [OF conjunct1 [OF trivial_moves_result [OF assms]]] by simp_all

lemma consistent_restore:
  "consistent (s2\<lparr>backtrack_count := b, bitmap := bitmap s, sudoku := sudoku s\<rparr>) = consistent s"
  by (rule consistent_arrays) simp_all

lemma frame_ok_ordering:
  assumes "advanced_least_options_cell s = Some (i, j)"
  shows "frame_ok (Try s i j (smart_number_ordering s i j))"
  using least_options_range [OF assms] by (simp add: list_all_iff smart_number_ordering_iff)

text \<open>What a returning frame leaves behind, whatever the state it starts from.\<close>

lemma backtrack_frames_effect:
  assumes "backtrack_frames f = Some y"
  shows "attempts (snd y) = attempts (frame_solver f) \<and>
         backtrack_count (frame_solver f) \<le> backtrack_count (snd y) \<and>
         (case fst y of
            Some g \<Rightarrow> g = sudoku (snd y) \<and> is_solved (snd y)
          | None \<Rightarrow> bitmap (snd y) = bitmap (frame_solver f) \<and> sudoku (snd y) = sudoku (frame_solver f))"
  using assms
proof (induction rule: backtrack_frames_induct)
  case (solved s)
  then show ?case by simp
next
  case (stuck s)
  then show ?case by simp
next
  case (enter s i j y)
  then show ?case by (cases "fst y") simp_all
next
  case (nil s i j)
  then show ?case by simp
next
  case (success s i j n ns s1 g s2)
  then show ?case using trivial_moves_counters [OF success(2)] by (simp add: place_number_counters)
next
  case (retry s i j n ns s1 s2 y)
  then show ?case
    using trivial_moves_counters [OF retry(2)]
    by (cases "fst y") (simp_all add: place_number_counters)
next
  case (skip s i j n ns y)
  then show ?case by (cases "fst y") simp_all
qed

text \<open>The invariant of the data model holds when a frame returns.\<close>

lemma backtrack_frames_consistent:
  assumes "backtrack_frames f = Some y"
  shows "consistent (frame_solver f) \<Longrightarrow> frame_ok f \<Longrightarrow> consistent (snd y)"
  using assms
proof (induction rule: backtrack_frames_induct)
  case (solved s)
  then show ?case by simp
next
  case (stuck s)
  then show ?case by simp
next
  case (enter s i j y)
  then show ?case using frame_ok_ordering [OF enter(2)] by simp
next
  case (nil s i j)
  then show ?case by simp
next
  case (success s i j n ns s1 g s2)
  have "consistent (place_number s i j n)"
    using success(1,4,5) by (intro consistent_place_number) simp_all
  then have "consistent s1" by (rule consistent_trivial_moves [OF success(2)])
  then show ?case using success(3) by simp
next
  case (retry s i j n ns s1 s2 y)
  show ?case using retry(4,5,6) by (simp add: consistent_restore)
next
  case (skip s i j n ns y)
  then show ?case by simp
qed

text \<open>Every state a frame returns in is a state of the engine.\<close>

lemma engine_forced_steps:
  "forced_step\<^sup>*\<^sup>* s s' \<Longrightarrow> engine_state g s \<Longrightarrow> engine_state g s'"
proof (induction rule: rtranclp_induct)
  case base
  then show ?case by simp
next
  case (step y z)
  obtain i j where ij: "i < 9" "j < 9" "is_trivial_cell y i j"
      and z: "z = place_number y i j (argmax_bool (bitmap y ! i ! j) + 1)"
    using step.hyps(2) unfolding forced_step_def by blast
  show ?case unfolding z by (rule engine_state.forced [OF step.IH [OF step.prems] ij])
qed

lemma engine_trivial_moves:
  "trivial_moves s = Some s' \<Longrightarrow> engine_state g s \<Longrightarrow> engine_state g s'"
  using trivial_moves_result engine_forced_steps by blast

lemma engine_restore:
  assumes "engine_state g s" "engine_state g s2"
  shows "engine_state g (s2\<lparr>backtrack_count := b, bitmap := bitmap s, sudoku := sudoku s\<rparr>)"
proof -
  have "engine_state g (s2\<lparr>attempts := attempts s2, backtrack_count := b\<rparr>)"
    by (rule engine_state.counters [OF assms(2)])
  then have "engine_state g (s2\<lparr>backtrack_count := b\<rparr>)" by simp
  from engine_state.restored [OF assms(1) this] show ?thesis by simp
qed

lemma backtrack_frames_engine:
  assumes "backtrack_frames f = Some y"
  shows "engine_state g (frame_solver f) \<Longrightarrow> frame_ok f \<Longrightarrow> engine_state g (snd y)"
  using assms
proof (induction rule: backtrack_frames_induct)
  case (solved s)
  then show ?case by simp
next
  case (stuck s)
  then show ?case by simp
next
  case (enter s i j y)
  then show ?case using frame_ok_ordering [OF enter(2)] by simp
next
  case (nil s i j)
  then show ?case by simp
next
  case (success s i j n ns s1 g' s2)
  have "engine_state g (place_number s i j n)"
    using success(1,4,5) by (intro engine_state.speculative) simp_all
  then have "engine_state g s1" by (rule engine_trivial_moves [OF success(2)])
  then show ?case using success(3) by simp
next
  case (retry s i j n ns s1 s2 y)
  have "engine_state g (place_number s i j n)"
    using retry(1,5,6) by (intro engine_state.speculative) simp_all
  then have "engine_state g s1" by (rule engine_trivial_moves [OF retry(2)])
  then have "engine_state g s2" using retry(3) by simp
  then have "engine_state g (s2\<lparr>backtrack_count := backtrack_count s2 + 1,
                   bitmap := bitmap s, sudoku := sudoku s\<rparr>)"
    using retry(5) by (intro engine_restore) simp_all
  then show ?case using retry(4,6) by simp
next
  case (skip s i j n ns y)
  then show ?case by simp
qed

text \<open>Completeness: a frame from which a solution is within reach does not return \<^verbatim>\<open>None\<close>.\<close>

lemma backtrack_frames_complete:
  assumes "backtrack_frames f = Some y" "solution G"
  shows "consistent (frame_solver f) \<Longrightarrow> frame_ok f \<Longrightarrow> frame_reaches G f \<Longrightarrow> fst y \<noteq> None"
  using assms(1)
proof (induction rule: backtrack_frames_induct)
  case (solved s)
  then show ?case by simp
next
  case (stuck s)
  then show ?case using least_options_empty [OF consistentD(1)] by fastforce
next
  case (enter s i j y)
  have c: "consistent s" using enter.prems by simp
  obtain i' j' where e: "advanced_least_options_cell s = Some (i', j')" "i' < 9" "j' < 9"
      "sudoku s ! i' ! j' = 0"
    using least_options_empty [OF consistentD(1) [OF c] enter(1)] by blast
  then have ij: "i < 9" "j < 9" "sudoku s ! i ! j = 0" using enter(2) by simp_all
  have "can_place_number s i j (G ! i ! j)"
    using enter.prems by (intro solution_candidate [OF c assms(2) _ ij]) simp
  moreover have "1 \<le> G ! i ! j \<and> G ! i ! j \<le> 9" by (rule solutionD(3) [OF assms(2) ij(1,2)])
  ultimately have "G ! i ! j \<in> set (smart_number_ordering s i j)"
    by (simp add: smart_number_ordering_iff)
  then show ?case using enter.IH enter.prems frame_ok_ordering [OF enter(2)] ij(3) by simp
next
  case (nil s i j)
  then show ?case by simp
next
  case (success s i j n ns s1 g s2)
  then show ?case by simp
next
  case (retry s i j n ns s1 s2 y)
  have c: "consistent s" and ij: "i < 9" "j < 9" and n: "1 \<le> n" "n \<le> 9"
    and ex: "extends G (sudoku s)" and em: "sudoku s ! i ! j = 0" and mem: "G ! i ! j \<in> set (n # ns)"
    using retry.prems by simp_all
  have "n \<noteq> G ! i ! j"
  proof
    assume eq: "n = G ! i ! j"
    have c1: "consistent (place_number s i j n)"
      by (rule consistent_place_number [OF c ij n retry(1)])
    have e1: "extends G (sudoku (place_number s i j n))"
      unfolding eq by (rule extends_place_number [OF consistentD(1) [OF c] ex ij])
    have "consistent s1 \<and> extends G (sudoku s1)"
      by (rule extends_forced_steps
          [OF conjunct1 [OF trivial_moves_result [OF retry(2)]] c1 assms(2) e1])
    then show False using retry.IH(1) by simp
  qed
  then have "G ! i ! j \<in> set ns" using mem by auto
  then show ?case
    using retry.IH(2) retry.prems by (simp add: consistent_restore)
next
  case (skip s i j n ns y)
  have c: "consistent s" and ij: "i < 9" "j < 9"
    and ex: "extends G (sudoku s)" and em: "sudoku s ! i ! j = 0" and mem: "G ! i ! j \<in> set (n # ns)"
    using skip.prems by simp_all
  have "can_place_number s i j (G ! i ! j)"
    by (rule solution_candidate [OF c assms(2) ex ij em])
  then have "n \<noteq> G ! i ! j" using skip(1) by auto
  then have "G ! i ! j \<in> set ns" using mem by auto
  then show ?case using skip.IH skip.prems by simp
qed

text \<open>Termination: on arrays of the right shape every frame returns.\<close>

lemma flag_count_restore:
  "flag_count (s2\<lparr>backtrack_count := b, bitmap := bitmap s, sudoku := sudoku s\<rparr>) = flag_count s"
  by (simp add: flag_count_def)

lemma wf_solver_restore:
  "wf_solver (s2\<lparr>backtrack_count := b, bitmap := bitmap s, sudoku := sudoku s\<rparr>) = wf_solver s"
  by (simp add: wf_solver_def)

lemma trivial_moves_wf:
  assumes "trivial_moves s = Some s'" "wf_solver s"
  shows "wf_solver s'" "flag_count s' \<le> flag_count s"
  using forced_steps_props [OF conjunct1 [OF trivial_moves_result [OF assms(1)]] assms(2)]
  by simp_all

lemma backtrack_Try_total:
  assumes ih: "\<And>s1. flag_count s1 < m \<Longrightarrow> wf_solver s1 \<Longrightarrow> \<exists>y. backtrack_frames (Enter s1) = Some y"
  shows "wf_solver s \<Longrightarrow> flag_count s = m \<Longrightarrow> i < 9 \<Longrightarrow> j < 9 \<Longrightarrow>
         list_all (\<lambda>n. 1 \<le> n \<and> n \<le> 9) ns \<Longrightarrow> \<exists>y. backtrack_frames (Try s i j ns) = Some y"
proof (induction ns arbitrary: s)
  case Nil
  then show ?case by (simp add: backtrack_Try_Nil)
next
  case (Cons n ns)
  have ns: "list_all (\<lambda>n. 1 \<le> n \<and> n \<le> 9) ns" and n: "1 \<le> n" "n \<le> 9"
    using Cons.prems(5) by simp_all
  show ?case
  proof (cases "can_place_number s i j n")
    case False
    then show ?thesis
      using Cons.IH [OF Cons.prems(1-4) ns] by (simp add: backtrack_Try_Cons)
  next
    case True
    let ?p = "place_number s i j n"
    have wp: "wf_solver ?p" by (rule place_number_wf [OF Cons.prems(1)])
    have lp: "flag_count ?p < m"
      using place_number_flag_count_less [OF Cons.prems(1,3,4) n True] Cons.prems(2) by simp
    obtain s1 where s1: "trivial_moves ?p = Some s1" using trivial_moves_total [OF wp] by blast
    note t = trivial_moves_wf [OF s1 wp]
    have "flag_count s1 < m" using t(2) lp by simp
    then obtain r s2 where r: "backtrack_frames (Enter s1) = Some (r, s2)"
      using ih [OF _ t(1)] by fastforce
    show ?thesis
    proof (cases r)
      case (Some g)
      then show ?thesis using True s1 r by (simp add: backtrack_Try_Cons)
    next
      case None
      let ?r = "s2\<lparr>backtrack_count := backtrack_count s2 + 1, bitmap := bitmap s, sudoku := sudoku s\<rparr>"
      have "wf_solver ?r" "flag_count ?r = m"
        using Cons.prems(1,2) by (simp_all only: wf_solver_restore flag_count_restore)
      then obtain y where "backtrack_frames (Try ?r i j ns) = Some y"
        using Cons.IH [OF _ _ Cons.prems(3,4) ns] by blast
      then show ?thesis using True s1 r None by (simp add: backtrack_Try_Cons)
    qed
  qed
qed

lemma backtrack_Enter_total:
  "wf_solver s \<Longrightarrow> \<exists>y. backtrack_frames (Enter s) = Some y"
proof (induction "flag_count s" arbitrary: s rule: less_induct)
  case less
  show ?case
  proof (cases "is_solved s")
    case True
    then show ?thesis by (simp add: backtrack_Enter)
  next
    case False
    show ?thesis
    proof (cases "advanced_least_options_cell s")
      case None
      then show ?thesis using False by (simp add: backtrack_Enter)
    next
      case (Some c)
      obtain i j where c: "c = (i, j)" by (cases c) auto
      have a: "advanced_least_options_cell s = Some (i, j)" using Some c by simp
      note ok = frame_ok_ordering [OF a]
      have "\<exists>y. backtrack_frames (Try s i j (smart_number_ordering s i j)) = Some y"
        using ok less.hyps by (intro backtrack_Try_total [OF _ less.prems refl]) simp_all
      then show ?thesis using False a by (simp add: backtrack_Enter)
    qed
  qed
qed

lemma advanced_backtrack_total: "wf_solver s \<Longrightarrow> \<exists>r s'. advanced_backtrack s = Some (r, s')"
  using backtrack_Enter_total [of s] by (auto simp: advanced_backtrack_def)

section \<open>The search with visualization\<close>

lemma count_attempt_scores:
  "impact_score (s\<lparr>attempts := a\<rparr>) = impact_score s"
  "number_frequency_score (s\<lparr>attempts := a\<rparr>) = number_frequency_score s"
  by (rule ext, rule ext, simp add: impact_score_def)
     (rule ext, rule ext, rule ext, simp add: number_frequency_score_def number_frequency_def)

lemma count_attempt_same:
  "is_solved (s\<lparr>attempts := a\<rparr>) = is_solved s"
  "advanced_least_options_cell (s\<lparr>attempts := a\<rparr>) = advanced_least_options_cell s"
  "smart_number_ordering (s\<lparr>attempts := a\<rparr>) i j = smart_number_ordering s i j"
proof -
  show "is_solved (s\<lparr>attempts := a\<rparr>) = is_solved s" by (simp add: is_solved_def)
  have "impact_matrix (s\<lparr>attempts := a\<rparr>) = impact_matrix s"
    unfolding impact_matrix_def count_attempt_scores by simp
  then show "advanced_least_options_cell (s\<lparr>attempts := a\<rparr>) = advanced_least_options_cell s"
    by (simp add: advanced_least_options_cell_def)
  show "smart_number_ordering (s\<lparr>attempts := a\<rparr>) i j = smart_number_ordering s i j"
    unfolding smart_number_ordering_def count_attempt_scores by (simp add: possible_numbers_def)
qed

lemma visualize_Enter:
  "visualize_frames (Enter s) =
     (if is_solved s then Some (Some (sudoku s), s\<lparr>attempts := attempts s + 1\<rparr>)
      else (case advanced_least_options_cell s of
              None \<Rightarrow> Some (None, s\<lparr>attempts := attempts s + 1\<rparr>)
            | Some (i, j) \<Rightarrow>
                visualize_frames (Try (s\<lparr>attempts := attempts s + 1\<rparr>) i j (smart_number_ordering s i j))))"
  by (subst visualize_frames.simps) (simp add: Let_def count_attempt_same split: option.splits)

lemma visualize_Try_Nil: "visualize_frames (Try s i j []) = Some (None, s)"
  by (subst visualize_frames.simps) simp

lemma visualize_Try_Cons:
  "visualize_frames (Try s i j (n # ns)) =
     (if can_place_number s i j n
      then Option.bind (trivial_moves (place_number s i j n)) (\<lambda>s1.
             Option.bind (visualize_frames (Enter s1)) (\<lambda>(result, s2).
               case result of
                 Some g \<Rightarrow> Some (Some g, s2)
               | None \<Rightarrow>
                   visualize_frames
                     (Try (s2\<lparr>backtrack_count := backtrack_count s2 + 1,
                              bitmap := bitmap s, sudoku := sudoku s\<rparr>) i j ns)))
      else visualize_frames (Try s i j ns))"
  by (subst visualize_frames.simps) simp

text \<open>The runs of the search, as an induction rule: one case for each way a frame returns.\<close>

lemma visualize_frames_induct [consumes 1, case_names solved stuck enter nil success retry skip]:
  assumes run: "visualize_frames f = Some y"
    and solved: "\<And>s. is_solved s \<Longrightarrow>
        P (Enter s) (Some (sudoku s), s\<lparr>attempts := attempts s + 1\<rparr>)"
    and stuck: "\<And>s. \<not> is_solved s \<Longrightarrow> advanced_least_options_cell s = None \<Longrightarrow>
        P (Enter s) (None, s\<lparr>attempts := attempts s + 1\<rparr>)"
    and enter: "\<And>s i j y. \<not> is_solved s \<Longrightarrow> advanced_least_options_cell s = Some (i, j) \<Longrightarrow>
        P (Try (s\<lparr>attempts := attempts s + 1\<rparr>) i j (smart_number_ordering s i j)) y \<Longrightarrow>
        P (Enter s) y"
    and nil: "\<And>s i j. P (Try s i j []) (None, s)"
    and success: "\<And>s i j n ns s1 g s2. can_place_number s i j n \<Longrightarrow>
        trivial_moves (place_number s i j n) = Some s1 \<Longrightarrow> P (Enter s1) (Some g, s2) \<Longrightarrow>
        P (Try s i j (n # ns)) (Some g, s2)"
    and retry: "\<And>s i j n ns s1 s2 y. can_place_number s i j n \<Longrightarrow>
        trivial_moves (place_number s i j n) = Some s1 \<Longrightarrow> P (Enter s1) (None, s2) \<Longrightarrow>
        P (Try (s2\<lparr>backtrack_count := backtrack_count s2 + 1,
                   bitmap := bitmap s, sudoku := sudoku s\<rparr>) i j ns) y \<Longrightarrow>
        P (Try s i j (n # ns)) y"
    and skip: "\<And>s i j n ns y. \<not> can_place_number s i j n \<Longrightarrow> P (Try s i j ns) y \<Longrightarrow>
        P (Try s i j (n # ns)) y"
  shows "P f y"
proof (rule visualize_frames.raw_induct [where P = P, OF _ run])
  fix bf :: "frame \<Rightarrow> (grid option \<times> solver) option" and f y
  assume ih: "\<And>x z. bf x = Some z \<Longrightarrow> P x z"
  assume eq: "(case f of
        Enter s0 \<Rightarrow>
          (let s = s0\<lparr>attempts := attempts s0 + 1\<rparr> in
           if is_solved s then Some (Some (sudoku s), s)
           else (case advanced_least_options_cell s of
                   None \<Rightarrow> Some (None, s)
                 | Some (i, j) \<Rightarrow> bf (Try s i j (smart_number_ordering s i j))))
      | Try s i j [] \<Rightarrow> Some (None, s)
      | Try s i j (number # numbers) \<Rightarrow>
          if can_place_number s i j number
          then Option.bind (trivial_moves (place_number s i j number)) (\<lambda>s1.
                 Option.bind (bf (Enter s1)) (\<lambda>(result, s2).
                   case result of
                     Some g \<Rightarrow> Some (Some g, s2)
                   | None \<Rightarrow>
                       bf (Try (s2\<lparr>backtrack_count := backtrack_count s2 + 1,
                                  bitmap := bitmap s, sudoku := sudoku s\<rparr>) i j numbers)))
          else bf (Try s i j numbers)) = Some y"
  show "P f y"
  proof (cases f)
    case (Enter s)
    show ?thesis
    proof (cases "is_solved s")
      case True
      then have "y = (Some (sudoku s), s\<lparr>attempts := attempts s + 1\<rparr>)"
        using eq Enter by (simp add: Let_def count_attempt_same)
      then show ?thesis using solved [OF True] Enter by simp
    next
      case False
      show ?thesis
      proof (cases "advanced_least_options_cell s")
        case None
        then have "y = (None, s\<lparr>attempts := attempts s + 1\<rparr>)"
          using eq Enter False by (simp add: Let_def count_attempt_same)
        then show ?thesis using stuck [OF False None] Enter by simp
      next
        case (Some c)
        obtain i j where c: "c = (i, j)" by (cases c) auto
        have "bf (Try (s\<lparr>attempts := attempts s + 1\<rparr>) i j (smart_number_ordering s i j)) = Some y"
          using eq Enter False Some c by (simp add: Let_def count_attempt_same)
        then have "P (Try (s\<lparr>attempts := attempts s + 1\<rparr>) i j (smart_number_ordering s i j)) y"
          by (rule ih)
        then show ?thesis using enter [OF False] Some c Enter by simp
      qed
    qed
  next
    case (Try s i j numbers)
    show ?thesis
    proof (cases numbers)
      case Nil
      then have "y = (None, s)" using eq Try by simp
      then show ?thesis using nil Try Nil by simp
    next
      case (Cons n ns)
      show ?thesis
      proof (cases "can_place_number s i j n")
        case False
        then have "bf (Try s i j ns) = Some y" using eq Try Cons by simp
        then have "P (Try s i j ns) y" by (rule ih)
        then show ?thesis using skip [OF False] Try Cons by simp
      next
        case True
        have b: "Option.bind (trivial_moves (place_number s i j n)) (\<lambda>s1.
                 Option.bind (bf (Enter s1)) (\<lambda>(result, s2).
                   case result of
                     Some g \<Rightarrow> Some (Some g, s2)
                   | None \<Rightarrow>
                       bf (Try (s2\<lparr>backtrack_count := backtrack_count s2 + 1,
                                  bitmap := bitmap s, sudoku := sudoku s\<rparr>) i j ns))) = Some y"
          using eq Try Cons True by simp
        then obtain s1 where s1: "trivial_moves (place_number s i j n) = Some s1"
          and b1: "Option.bind (bf (Enter s1)) (\<lambda>(result, s2).
                   case result of
                     Some g \<Rightarrow> Some (Some g, s2)
                   | None \<Rightarrow>
                       bf (Try (s2\<lparr>backtrack_count := backtrack_count s2 + 1,
                                  bitmap := bitmap s, sudoku := sudoku s\<rparr>) i j ns)) = Some y"
          by (auto simp: bind_eq_Some_conv)
        then obtain r s2 where r: "bf (Enter s1) = Some (r, s2)"
          and b2: "(case r of
                     Some g \<Rightarrow> Some (Some g, s2)
                   | None \<Rightarrow>
                       bf (Try (s2\<lparr>backtrack_count := backtrack_count s2 + 1,
                                  bitmap := bitmap s, sudoku := sudoku s\<rparr>) i j ns)) = Some y"
          by (auto simp: bind_eq_Some_conv)
        have pr: "P (Enter s1) (r, s2)" using r by (rule ih)
        show ?thesis
        proof (cases r)
          case None
          then have "bf (Try (s2\<lparr>backtrack_count := backtrack_count s2 + 1,
                                  bitmap := bitmap s, sudoku := sudoku s\<rparr>) i j ns) = Some y"
            using b2 by simp
          then have "P (Try (s2\<lparr>backtrack_count := backtrack_count s2 + 1,
                                  bitmap := bitmap s, sudoku := sudoku s\<rparr>) i j ns) y" by (rule ih)
          then show ?thesis using retry [OF True s1] pr None Try Cons by simp
        next
          case (Some g)
          then have "y = (Some g, s2)" using b2 by simp
          then show ?thesis using success [OF True s1] pr Some Try Cons by simp
        qed
      qed
    qed
  qed
qed

lemma count_attempt_state:
  "consistent (s\<lparr>attempts := a\<rparr>) = consistent s"
  "wf_solver (s\<lparr>attempts := a\<rparr>) = wf_solver s"
  "flag_count (s\<lparr>attempts := a\<rparr>) = flag_count s"
  by (rule consistent_arrays) (simp_all add: wf_solver_def flag_count_def)

lemma count_attempt_engine: "engine_state g s \<Longrightarrow> engine_state g (s\<lparr>attempts := a\<rparr>)"
  using engine_state.counters [where g = g and s = s and a = a and b = "backtrack_count s"] by simp

lemmas count_simps = count_attempt_same count_attempt_state count_attempt_engine

text \<open>What a returning frame leaves behind: each entry of a call adds one to \<^verbatim>\<open>attempts\<close>.\<close>

lemma visualize_frames_effect:
  assumes "visualize_frames f = Some y"
  shows "attempts (frame_solver f) + (case f of Enter s \<Rightarrow> 1 | Try s i j ns \<Rightarrow> 0)
           \<le> attempts (snd y) \<and>
         backtrack_count (frame_solver f) \<le> backtrack_count (snd y) \<and>
         (case fst y of
            Some g \<Rightarrow> g = sudoku (snd y) \<and> is_solved (snd y)
          | None \<Rightarrow> bitmap (snd y) = bitmap (frame_solver f) \<and> sudoku (snd y) = sudoku (frame_solver f))"
  using assms
proof (induction rule: visualize_frames_induct)
  case (solved s)
  then show ?case by (simp add: count_simps)
next
  case (stuck s)
  then show ?case by (simp add: count_simps)
next
  case (enter s i j y)
  then show ?case by (cases "fst y") (simp_all add: count_simps)
next
  case (nil s i j)
  then show ?case by (simp add: count_simps)
next
  case (success s i j n ns s1 g s2)
  then show ?case using trivial_moves_counters [OF success(2)] by (simp add: place_number_counters)
next
  case (retry s i j n ns s1 s2 y)
  then show ?case
    using trivial_moves_counters [OF retry(2)]
    by (cases "fst y") (simp_all add: place_number_counters)
next
  case (skip s i j n ns y)
  then show ?case by (cases "fst y") (simp_all add: count_simps)
qed

text \<open>The invariant, the engine states and completeness, as for the other search.\<close>

lemma visualize_frames_consistent:
  assumes "visualize_frames f = Some y"
  shows "consistent (frame_solver f) \<Longrightarrow> frame_ok f \<Longrightarrow> consistent (snd y)"
  using assms
proof (induction rule: visualize_frames_induct)
  case (solved s)
  then show ?case by (simp add: count_simps)
next
  case (stuck s)
  then show ?case by (simp add: count_simps)
next
  case (enter s i j y)
  then show ?case using frame_ok_ordering [OF enter(2)] by (simp add: count_simps)
next
  case (nil s i j)
  then show ?case by (simp add: count_simps)
next
  case (success s i j n ns s1 g s2)
  have "consistent (place_number s i j n)"
    using success(1,4,5) by (intro consistent_place_number) simp_all
  then have "consistent s1" by (rule consistent_trivial_moves [OF success(2)])
  then show ?case using success(3) by (simp add: count_simps)
next
  case (retry s i j n ns s1 s2 y)
  show ?case using retry(4,5,6) by (simp add: consistent_restore)
next
  case (skip s i j n ns y)
  then show ?case by (simp add: count_simps)
qed

lemma visualize_frames_engine:
  assumes "visualize_frames f = Some y"
  shows "engine_state g (frame_solver f) \<Longrightarrow> frame_ok f \<Longrightarrow> engine_state g (snd y)"
  using assms
proof (induction rule: visualize_frames_induct)
  case (solved s)
  then show ?case by (simp add: count_simps)
next
  case (stuck s)
  then show ?case by (simp add: count_simps)
next
  case (enter s i j y)
  then show ?case using frame_ok_ordering [OF enter(2)] by (simp add: count_simps)
next
  case (nil s i j)
  then show ?case by (simp add: count_simps)
next
  case (success s i j n ns s1 g' s2)
  have "engine_state g (place_number s i j n)"
    using success(1,4,5) by (intro engine_state.speculative) simp_all
  then have "engine_state g s1" by (rule engine_trivial_moves [OF success(2)])
  then show ?case using success(3) by (simp add: count_simps)
next
  case (retry s i j n ns s1 s2 y)
  have "engine_state g (place_number s i j n)"
    using retry(1,5,6) by (intro engine_state.speculative) simp_all
  then have "engine_state g s1" by (rule engine_trivial_moves [OF retry(2)])
  then have "engine_state g s2" using retry(3) by (simp add: count_simps)
  then have "engine_state g (s2\<lparr>backtrack_count := backtrack_count s2 + 1,
                   bitmap := bitmap s, sudoku := sudoku s\<rparr>)"
    using retry(5) by (intro engine_restore) simp_all
  then show ?case using retry(4,6) by (simp add: count_simps)
next
  case (skip s i j n ns y)
  then show ?case by (simp add: count_simps)
qed

lemma visualize_frames_complete:
  assumes "visualize_frames f = Some y" "solution G"
  shows "consistent (frame_solver f) \<Longrightarrow> frame_ok f \<Longrightarrow> frame_reaches G f \<Longrightarrow> fst y \<noteq> None"
  using assms(1)
proof (induction rule: visualize_frames_induct)
  case (solved s)
  then show ?case by (simp add: count_simps)
next
  case (stuck s)
  then show ?case using least_options_empty [OF consistentD(1)] by fastforce
next
  case (enter s i j y)
  have c: "consistent s" using enter.prems by (simp add: count_simps)
  obtain i' j' where e: "advanced_least_options_cell s = Some (i', j')" "i' < 9" "j' < 9"
      "sudoku s ! i' ! j' = 0"
    using least_options_empty [OF consistentD(1) [OF c] enter(1)] by blast
  then have ij: "i < 9" "j < 9" "sudoku s ! i ! j = 0" using enter(2) by simp_all
  have "can_place_number s i j (G ! i ! j)"
    using enter.prems by (intro solution_candidate [OF c assms(2) _ ij]) simp
  moreover have "1 \<le> G ! i ! j \<and> G ! i ! j \<le> 9" by (rule solutionD(3) [OF assms(2) ij(1,2)])
  ultimately have "G ! i ! j \<in> set (smart_number_ordering s i j)"
    by (simp add: smart_number_ordering_iff)
  then show ?case using enter.IH enter.prems frame_ok_ordering [OF enter(2)] ij(3)
    by (simp add: count_simps)
next
  case (nil s i j)
  then show ?case by (simp add: count_simps)
next
  case (success s i j n ns s1 g s2)
  then show ?case by (simp add: count_simps)
next
  case (retry s i j n ns s1 s2 y)
  have c: "consistent s" and ij: "i < 9" "j < 9" and n: "1 \<le> n" "n \<le> 9"
    and ex: "extends G (sudoku s)" and em: "sudoku s ! i ! j = 0" and mem: "G ! i ! j \<in> set (n # ns)"
    using retry.prems by simp_all
  have "n \<noteq> G ! i ! j"
  proof
    assume eq: "n = G ! i ! j"
    have c1: "consistent (place_number s i j n)"
      by (rule consistent_place_number [OF c ij n retry(1)])
    have e1: "extends G (sudoku (place_number s i j n))"
      unfolding eq by (rule extends_place_number [OF consistentD(1) [OF c] ex ij])
    have "consistent s1 \<and> extends G (sudoku s1)"
      by (rule extends_forced_steps
          [OF conjunct1 [OF trivial_moves_result [OF retry(2)]] c1 assms(2) e1])
    then show False using retry.IH(1) by (simp add: count_simps)
  qed
  then have "G ! i ! j \<in> set ns" using mem by auto
  then show ?case
    using retry.IH(2) retry.prems by (simp add: consistent_restore)
next
  case (skip s i j n ns y)
  have c: "consistent s" and ij: "i < 9" "j < 9"
    and ex: "extends G (sudoku s)" and em: "sudoku s ! i ! j = 0" and mem: "G ! i ! j \<in> set (n # ns)"
    using skip.prems by simp_all
  have "can_place_number s i j (G ! i ! j)"
    by (rule solution_candidate [OF c assms(2) ex ij em])
  then have "n \<noteq> G ! i ! j" using skip(1) by auto
  then have "G ! i ! j \<in> set ns" using mem by auto
  then show ?case using skip.IH skip.prems by (simp add: count_simps)
qed

lemma visualize_Try_total:
  assumes ih: "\<And>s1. flag_count s1 < m \<Longrightarrow> wf_solver s1 \<Longrightarrow> \<exists>y. visualize_frames (Enter s1) = Some y"
  shows "wf_solver s \<Longrightarrow> flag_count s = m \<Longrightarrow> i < 9 \<Longrightarrow> j < 9 \<Longrightarrow>
         list_all (\<lambda>n. 1 \<le> n \<and> n \<le> 9) ns \<Longrightarrow> \<exists>y. visualize_frames (Try s i j ns) = Some y"
proof (induction ns arbitrary: s)
  case Nil
  then show ?case by (simp add: visualize_Try_Nil)
next
  case (Cons n ns)
  have ns: "list_all (\<lambda>n. 1 \<le> n \<and> n \<le> 9) ns" and n: "1 \<le> n" "n \<le> 9"
    using Cons.prems(5) by simp_all
  show ?case
  proof (cases "can_place_number s i j n")
    case False
    then show ?thesis
      using Cons.IH [OF Cons.prems(1-4) ns] by (simp add: visualize_Try_Cons)
  next
    case True
    let ?p = "place_number s i j n"
    have wp: "wf_solver ?p" by (rule place_number_wf [OF Cons.prems(1)])
    have lp: "flag_count ?p < m"
      using place_number_flag_count_less [OF Cons.prems(1,3,4) n True] Cons.prems(2) by (simp add: count_simps)
    obtain s1 where s1: "trivial_moves ?p = Some s1" using trivial_moves_total [OF wp] by blast
    note t = trivial_moves_wf [OF s1 wp]
    have "flag_count s1 < m" using t(2) lp by (simp add: count_simps)
    then obtain r s2 where r: "visualize_frames (Enter s1) = Some (r, s2)"
      using ih [OF _ t(1)] by fastforce
    show ?thesis
    proof (cases r)
      case (Some g)
      then show ?thesis using True s1 r by (simp add: visualize_Try_Cons)
    next
      case None
      let ?r = "s2\<lparr>backtrack_count := backtrack_count s2 + 1, bitmap := bitmap s, sudoku := sudoku s\<rparr>"
      have "wf_solver ?r" "flag_count ?r = m"
        using Cons.prems(1,2) by (simp_all only: wf_solver_restore flag_count_restore)
      then obtain y where "visualize_frames (Try ?r i j ns) = Some y"
        using Cons.IH [OF _ _ Cons.prems(3,4) ns] by blast
      then show ?thesis using True s1 r None by (simp add: visualize_Try_Cons)
    qed
  qed
qed

lemma visualize_Enter_total:
  "wf_solver s \<Longrightarrow> \<exists>y. visualize_frames (Enter s) = Some y"
proof (induction "flag_count s" arbitrary: s rule: less_induct)
  case less
  show ?case
  proof (cases "is_solved s")
    case True
    then show ?thesis by (simp add: visualize_Enter)
  next
    case False
    show ?thesis
    proof (cases "advanced_least_options_cell s")
      case None
      then show ?thesis using False by (simp add: visualize_Enter)
    next
      case (Some c)
      obtain i j where c: "c = (i, j)" by (cases c) auto
      have a: "advanced_least_options_cell s = Some (i, j)" using Some c by (simp add: count_simps)
      note ok = frame_ok_ordering [OF a]
      have "\<exists>y. visualize_frames (Try (s\<lparr>attempts := attempts s + 1\<rparr>) i j
                  (smart_number_ordering s i j)) = Some y"
      proof (rule visualize_Try_total [where m = "flag_count s"])
        show "\<exists>y. visualize_frames (Enter s1) = Some y"
          if "flag_count s1 < flag_count s" "wf_solver s1" for s1
          using less.hyps that by blast
      qed (use ok less.prems in \<open>simp_all add: count_simps\<close>)
      then show ?thesis using False a by (simp add: visualize_Enter)
    qed
  qed
qed

lemma advanced_backtrack_visualize_total: "wf_solver s \<Longrightarrow> \<exists>r s'. advanced_backtrack_visualize s = Some (r, s')"
  using visualize_Enter_total [of s] by (auto simp: advanced_backtrack_visualize_def)

section \<open>Solving\<close>

lemma consistent_reset:
  "consistent (s\<lparr>attempts := a, backtrack_count := b\<rparr>) = consistent s"
  by (rule consistent_arrays) simp_all

lemma engine_state_consistent:
  assumes "engine_state g s" "valid_clues g"
  shows "consistent s"
  using assms(1)
proof (induction rule: engine_state.induct)
  case constructed
  show ?case by (rule SudokuSolver_consistent(1) [OF assms(2)])
next
  case (counters s a b)
  show ?case unfolding consistent_reset by (rule counters.IH)
next
  case (speculative s i j number)
  show ?case
    by (rule consistent_place_number
        [OF speculative.IH speculative.hyps(2) speculative.hyps(3) speculative.hyps(4)
          speculative.hyps(5) speculative.hyps(6)])
next
  case (forced s i j)
  have "forced_step s (place_number s i j (argmax_bool (bitmap s ! i ! j) + 1))"
    unfolding forced_step_def using forced.hyps(2,3,4) by blast
  then show ?case by (rule consistent_forced_step [OF forced.IH])
next
  case (restored s s2)
  have "consistent (s2\<lparr>bitmap := bitmap s, sudoku := sudoku s\<rparr>) = consistent s"
    by (rule consistent_arrays) simp_all
  then show ?case using restored.IH(1) by simp
qed

text \<open>
  A solve returns on every state of the right shape; from a consistent state it returns in
  a consistent state, and it returns a grid whenever some solution extends the grid it
  starts from.
\<close>

lemma solve_total:
  assumes "wf_solver s"
  shows "\<exists>r s'. solve_with_visualization v s = Some (r, s')"
proof -
  have w: "wf_solver (s\<lparr>attempts := 0, backtrack_count := 0\<rparr>)"
    using assms by (simp add: wf_solver_def)
  show ?thesis
    using advanced_backtrack_total [OF w] advanced_backtrack_visualize_total [OF w]
    by (simp add: solve_with_visualization_def Let_def)
qed

lemma solve_frames:
  "solve_with_visualization v s =
     (if v then visualize_frames (Enter (s\<lparr>attempts := 0, backtrack_count := 0\<rparr>))
      else backtrack_frames (Enter (s\<lparr>attempts := 0, backtrack_count := 0\<rparr>)))"
  by (simp add: solve_with_visualization_def Let_def advanced_backtrack_def
      advanced_backtrack_visualize_def)

lemma solve_consistent:
  assumes "solve_with_visualization v s = Some (r, s')" "consistent s"
  shows "consistent s'" and "\<And>g. r = Some g \<Longrightarrow> g = sudoku s' \<and> is_solved s'"
    and "r = None \<Longrightarrow> sudoku s' = sudoku s \<and> bitmap s' = bitmap s"
proof -
  let ?s0 = "s\<lparr>attempts := 0, backtrack_count := 0\<rparr>"
  have c0: "consistent (frame_solver (Enter ?s0))" using assms(2) by (simp add: consistent_reset)
  show "consistent s'"
  proof (cases v)
    case True
    then show ?thesis
      using visualize_frames_consistent [OF _ c0, of "(r, s')"] assms(1) by (simp add: solve_frames)
  next
    case False
    then show ?thesis
      using backtrack_frames_consistent [OF _ c0, of "(r, s')"] assms(1) by (simp add: solve_frames)
  qed
  have e: "(case r of Some g \<Rightarrow> g = sudoku s' \<and> is_solved s'
          | None \<Rightarrow> bitmap s' = bitmap s \<and> sudoku s' = sudoku s)"
  proof (cases v)
    case True
    then show ?thesis
      using visualize_frames_effect [of "Enter ?s0" "(r, s')"] assms(1)
      by (cases r) (simp_all add: solve_frames)
  next
    case False
    then show ?thesis
      using backtrack_frames_effect [of "Enter ?s0" "(r, s')"] assms(1)
      by (cases r) (simp_all add: solve_frames)
  qed
  show "g = sudoku s' \<and> is_solved s'" if "r = Some g" for g using e that by simp
  show "sudoku s' = sudoku s \<and> bitmap s' = bitmap s" if "r = None" using e that by simp
qed

lemma solve_engine:
  assumes "solve_with_visualization v s = Some (r, s')" "engine_state g s"
  shows "engine_state g s'"
proof -
  let ?s0 = "s\<lparr>attempts := 0, backtrack_count := 0\<rparr>"
  have e0: "engine_state g (frame_solver (Enter ?s0))"
    using engine_state.counters [OF assms(2)] by simp
  show ?thesis
  proof (cases v)
    case True
    then show ?thesis
      using visualize_frames_engine [OF _ e0, of "(r, s')"] assms(1) by (simp add: solve_frames)
  next
    case False
    then show ?thesis
      using backtrack_frames_engine [OF _ e0, of "(r, s')"] assms(1) by (simp add: solve_frames)
  qed
qed

lemma solve_complete:
  assumes "solve_with_visualization v s = Some (r, s')" "consistent s" "solution G"
    "extends G (sudoku s)"
  shows "r \<noteq> None"
proof -
  let ?s0 = "s\<lparr>attempts := 0, backtrack_count := 0\<rparr>"
  have c0: "consistent (frame_solver (Enter ?s0))" using assms(2) by (simp add: consistent_reset)
  have r0: "frame_reaches G (Enter ?s0)" using assms(4) by simp
  show ?thesis
  proof (cases v)
    case True
    then show ?thesis
      using visualize_frames_complete [OF _ assms(3) c0 _ r0, of "(r, s')"] assms(1)
      by (simp add: solve_frames)
  next
    case False
    then show ?thesis
      using backtrack_frames_complete [OF _ assms(3) c0 _ r0, of "(r, s')"] assms(1)
      by (simp add: solve_frames)
  qed
qed

section \<open>Completed grids\<close>

lemma unit_values:
  assumes nc: "no_conflict g"
    and rng: "\<And>a c. a < 9 \<Longrightarrow> c < 9 \<Longrightarrow> 1 \<le> g ! a ! c \<and> g ! a ! c \<le> 9"
    and fin: "finite I" and card: "card I = 9"
    and sub: "\<And>p. p \<in> I \<Longrightarrow> fst p < 9 \<and> snd p < 9"
    and sh: "\<And>p q. p \<in> I \<Longrightarrow> q \<in> I \<Longrightarrow> shares_unit p q"
  shows "(\<lambda>p. g ! fst p ! snd p) ` I = {1..9}"
proof -
  let ?f = "\<lambda>p. g ! fst p ! snd p"
  have inj: "inj_on ?f I"
  proof (rule inj_onI)
    fix p q assume pq: "p \<in> I" "q \<in> I" "?f p = ?f q"
    show "p = q"
    proof (rule ccontr)
      assume ne: "p \<noteq> q"
      obtain a c where p: "p = (a, c)" by (cases p) auto
      obtain a' c' where q: "q = (a', c')" by (cases q) auto
      have r: "a < 9" "c < 9" "a' < 9" "c' < 9" using sub [OF pq(1)] sub [OF pq(2)] p q by simp_all
      have nz: "g ! a ! c \<noteq> 0" using rng [OF r(1,2)] by simp
      have d: "\<not> (a = a' \<and> c = c')" using ne p q by simp
      have s: "shares_unit (a, c) (a', c')" using sh [OF pq(1,2)] p q by simp
      show False using no_conflictD [OF nc r nz d s] pq(3) p q by simp
    qed
  qed
  have "card (?f ` I) = 9" using card_image [OF inj] card by simp
  moreover have "?f ` I \<subseteq> {1..9}" using sub rng by auto
  moreover have "card {1..9::nat} = 9" by simp
  ultimately show ?thesis by (intro card_subset_eq) simp_all
qed

lemma card_third: "i < 9 \<Longrightarrow> card {a. a < 9 \<and> a div 3 = i div 3} = 3" for i :: nat
proof -
  assume i: "i < 9"
  have "{a. a < 9 \<and> a div 3 = i div 3} = {i div 3 * 3 ..< i div 3 * 3 + 3}"
  proof (rule set_eqI)
    fix a
    have "a < 9" if "a div 3 = i div 3" using that i by arith
    then show "(a \<in> {a. a < 9 \<and> a div 3 = i div 3}) = (a \<in> {i div 3 * 3 ..< i div 3 * 3 + 3})"
      using div3_range [of i a] by auto
  qed
  then show ?thesis by simp
qed

lemma image_cells:
  "(x \<in> (\<lambda>p. g ! fst p ! snd p) ` (A \<times> B)) = (\<exists>a\<in>A. \<exists>c\<in>B. g ! a ! c = x)"
proof
  assume "x \<in> (\<lambda>p. g ! fst p ! snd p) ` (A \<times> B)"
  then obtain p where p: "p \<in> A \<times> B" "x = g ! fst p ! snd p" by blast
  obtain a c where ac: "p = (a, c)" by (cases p) auto
  have "a \<in> A" "c \<in> B" "g ! a ! c = x" using p ac by simp_all
  then show "\<exists>a\<in>A. \<exists>c\<in>B. g ! a ! c = x" by blast
next
  assume "\<exists>a\<in>A. \<exists>c\<in>B. g ! a ! c = x"
  then obtain a c where ac: "a \<in> A" "c \<in> B" "g ! a ! c = x" by blast
  have "(a, c) \<in> A \<times> B" using ac by simp
  then have "(\<lambda>p. g ! fst p ! snd p) (a, c) \<in> (\<lambda>p. g ! fst p ! snd p) ` (A \<times> B)"
    by (rule imageI)
  then show "x \<in> (\<lambda>p. g ! fst p ! snd p) ` (A \<times> B)" using ac(3) by simp
qed

lemma solved_units:
  assumes nc: "no_conflict g" and w: "wf_grid g"
    and rng: "\<And>a c. a < 9 \<Longrightarrow> c < 9 \<Longrightarrow> 1 \<le> g ! a ! c \<and> g ! a ! c \<le> 9"
  shows "i < 9 \<Longrightarrow> set (g ! i) = {1..9}"
    and "j < 9 \<Longrightarrow> set (column g j) = {1..9}"
    and "i < 9 \<Longrightarrow> j < 9 \<Longrightarrow> set (box g (i div 3 * 3) (j div 3 * 3)) = {1..9}"
proof -
  let ?f = "\<lambda>p. g ! fst p ! snd p"
  {
    assume i: "i < 9"
    have "set (g ! i) = ?f ` ({i} \<times> {..<9})"
    proof (rule set_eqI)
      fix x show "(x \<in> set (g ! i)) = (x \<in> ?f ` ({i} \<times> {..<9}))"
        unfolding in_row_iff [OF w i] image_cells by auto
    qed
    also have "\<dots> = {1..9}"
      using i by (intro unit_values [OF nc rng]) (auto simp: shares_unit_def)
    finally show "set (g ! i) = {1..9}" .
  }
  {
    assume j: "j < 9"
    have "set (column g j) = ?f ` ({..<9} \<times> {j})"
    proof (rule set_eqI)
      fix x show "(x \<in> set (column g j)) = (x \<in> ?f ` ({..<9} \<times> {j}))"
        unfolding in_column_iff [OF w] image_cells by auto
    qed
    also have "\<dots> = {1..9}"
      using j by (intro unit_values [OF nc rng]) (auto simp: shares_unit_def)
    finally show "set (column g j) = {1..9}" .
  }
  {
    assume ij: "i < 9" "j < 9"
    let ?I = "{a. a < 9 \<and> a div 3 = i div 3} \<times> {c. c < 9 \<and> c div 3 = j div 3}"
    have f: "finite {a. a < 9 \<and> a div 3 = k}" for k :: nat by simp
    have "set (box g (i div 3 * 3) (j div 3 * 3)) = ?f ` ?I"
    proof (rule set_eqI)
      fix x show "(x \<in> set (box g (i div 3 * 3) (j div 3 * 3))) = (x \<in> ?f ` ?I)"
        unfolding in_box_iff [OF w ij] image_cells by auto
    qed
    also have "\<dots> = {1..9}"
    proof (rule unit_values [OF nc rng])
      show "finite ?I" using f by simp
      show "card ?I = 9" using card_third [OF ij(1)] card_third [OF ij(2)] by (simp add: card_cartesian_product)
      show "fst p < 9 \<and> snd p < 9" if "p \<in> ?I" for p using that by auto
      show "shares_unit p q" if "p \<in> ?I" "q \<in> ?I" for p q using that by (auto simp: shares_unit_def)
    qed simp_all
    finally show "set (box g (i div 3 * 3) (j div 3 * 3)) = {1..9}" .
  }
qed

lemma box_corners_props:
  "(bi, bj) \<in> set box_corners \<Longrightarrow> bi < 9 \<and> bj < 9 \<and> bi div 3 * 3 = bi \<and> bj div 3 * 3 = bj"
  by (auto simp: box_corners_def)

lemma grid_list_all:
  assumes w: "wf_grid g" and rng: "\<And>a c. a < 9 \<Longrightarrow> c < 9 \<Longrightarrow> P (g ! a ! c)"
  shows "list_all (list_all P) g"
  unfolding list_all_length
proof (intro allI impI)
  fix a c assume a: "a < length g" and c: "c < length (g ! a)"
  have a9: "a < 9" using a wf_grid_lengths(1) [OF w] by simp
  have c9: "c < 9" using c wf_grid_lengths(2) [OF w a9] by simp
  show "P (g ! a ! c)" by (rule rng [OF a9 c9])
qed

lemma list_all_upt9: "(\<And>i. i < 9 \<Longrightarrow> P i) \<Longrightarrow> list_all P [0..<9]"
  unfolding list_all_iff by (rule ballI) simp

lemma nz_solved:
  assumes "wf_grid (sudoku s)" "is_solved s" "a < 9" "c < 9"
  shows "sudoku s ! a ! c \<noteq> 0"
  using assms(2) empty_count_zero [OF assms(1)] assms(3,4) unfolding is_solved_def by blast

lemma boxes_all:
  assumes u: "\<And>i j. i < 9 \<Longrightarrow> j < 9 \<Longrightarrow> set (box g (i div 3 * 3) (j div 3 * 3)) = {1..9}"
  shows "list_all (\<lambda>(bi, bj). set (box g bi bj) = {1..9}) box_corners"
  unfolding list_all_iff
proof (rule ballI)
  fix x assume x: "x \<in> set box_corners"
  obtain bi bj where b: "x = (bi, bj)" by (cases x) auto
  note p = box_corners_props [OF x [unfolded b]]
  have "set (box g (bi div 3 * 3) (bj div 3 * 3)) = {1..9}"
    by (rule u) (simp_all add: p)
  then have "set (box g bi bj) = {1..9}" using p by simp
  then show "case x of (bi, bj) \<Rightarrow> set (box g bi bj) = {1..9}" unfolding b by simp
qed

lemma consistent_solved:
  assumes "consistent s" "is_solved s"
  shows "solution (sudoku s)" and "complete_grid (sudoku s)"
proof -
  note d = consistentD [OF assms(1)]
  have w: "wf_grid (sudoku s)" using d(1) by (simp add: wf_solver_def)
  have rng: "1 \<le> sudoku s ! a ! c \<and> sudoku s ! a ! c \<le> 9" if "a < 9" "c < 9" for a c
    using nz_solved [OF w assms(2) that] d(2) [OF that] by simp
  have r: "list_all (list_all (\<lambda>x. 1 \<le> x \<and> x \<le> 9)) (sudoku s)"
    by (rule grid_list_all [OF w]) (rule rng)
  show "solution (sudoku s)" unfolding solution_def
    by (intro conjI w r d(6))
  note u = solved_units [OF d(6) w rng]
  have rows: "list_all (\<lambda>i. set (sudoku s ! i) = {1..9}) [0..<9]"
    by (rule list_all_upt9) (rule u(1))
  have cols: "list_all (\<lambda>j. set (column (sudoku s) j) = {1..9}) [0..<9]"
    by (rule list_all_upt9) (rule u(2))
  have boxes: "list_all (\<lambda>(bi, bj). set (box (sudoku s) bi bj) = {1..9}) box_corners"
    by (rule boxes_all) (rule u(3))
  show "complete_grid (sudoku s)"
    unfolding complete_grid_def by (intro conjI rows cols boxes)
qed

lemma solution_example: "solution solved_example"
  by code_simp

lemma extends_fresh: "extends G (sudoku fresh_solver)"
  by (simp add: extends_iff fresh_solver_def)

section \<open>Puzzle generation\<close>

lemma remove_cells_Cons:
  "remove_cells g ((i, j) # cs) = remove_cells (g[i := (g ! i)[j := 0]]) cs"
  by (simp add: remove_cells_def)

lemma remove_cells_wf: "wf_grid g \<Longrightarrow> wf_grid (remove_cells g cs)"
proof (induction cs arbitrary: g)
  case Nil
  then show ?case by (simp add: remove_cells_def)
next
  case (Cons x cs)
  obtain i j where x: "x = (i, j)" by (cases x) auto
  show ?case unfolding x remove_cells_Cons
    by (rule Cons.IH) (rule wf_grid_update [OF Cons.prems])
qed

lemma remove_cells_nth:
  "wf_grid g \<Longrightarrow> a < 9 \<Longrightarrow> c < 9 \<Longrightarrow>
   remove_cells g cs ! a ! c = (if (a, c) \<in> set cs then 0 else g ! a ! c)"
proof (induction cs arbitrary: g)
  case Nil
  then show ?case by (simp add: remove_cells_def)
next
  case (Cons x cs)
  obtain i j where x: "x = (i, j)" by (cases x) auto
  let ?g = "g[i := (g ! i)[j := 0]]"
  have w: "wf_grid ?g" by (rule wf_grid_update [OF Cons.prems(1)])
  have u: "?g ! a ! c = (if a = i \<and> c = j then 0 else g ! a ! c)"
    by (rule grid_update_nth [OF Cons.prems])
  have "remove_cells ?g cs ! a ! c = (if (a, c) \<in> set cs then 0 else ?g ! a ! c)"
    by (rule Cons.IH [OF w Cons.prems(2) Cons.prems(3)])
  then show ?case unfolding x remove_cells_Cons u by auto
qed

lemma empty_count_remove_cells:
  "wf_grid g \<Longrightarrow> distinct cs \<Longrightarrow> set cs \<subseteq> set all_cells \<Longrightarrow>
   (\<And>a c. (a, c) \<in> set cs \<Longrightarrow> g ! a ! c \<noteq> 0) \<Longrightarrow>
   empty_count (remove_cells g cs) = empty_count g + length cs"
proof (induction cs arbitrary: g)
  case Nil
  then show ?case by (simp add: remove_cells_def)
next
  case (Cons x cs)
  obtain i j where x: "x = (i, j)" by (cases x) auto
  let ?g = "g[i := (g ! i)[j := 0]]"
  have ij: "i < 9" "j < 9" using Cons.prems(3) unfolding x by (simp_all add: set_all_cells)
  have nz: "g ! i ! j \<noteq> 0" by (rule Cons.prems(4)) (simp add: x)
  have w: "wf_grid ?g" by (rule wf_grid_update [OF Cons.prems(1)])
  have d: "distinct cs" using Cons.prems(2) by simp
  have sub: "set cs \<subseteq> set all_cells" using Cons.prems(3) by simp
  have notin: "(i, j) \<notin> set cs" using Cons.prems(2) unfolding x by simp
  have rest: "?g ! a ! c \<noteq> 0" if m: "(a, c) \<in> set cs" for a c
  proof -
    have ac: "a < 9" "c < 9" using m sub by (auto simp: set_all_cells)
    have ne: "\<not> (a = i \<and> c = j)" using m notin by auto
    have "?g ! a ! c = (if a = i \<and> c = j then 0 else g ! a ! c)"
      by (rule grid_update_nth [OF Cons.prems(1) ac])
    then have "?g ! a ! c = g ! a ! c" using ne by auto
    moreover have "g ! a ! c \<noteq> 0" by (rule Cons.prems(4)) (simp add: m)
    ultimately show ?thesis by simp
  qed
  have "empty_count (remove_cells ?g cs) = empty_count ?g + length cs"
    by (rule Cons.IH [OF w d sub rest])
  moreover have "empty_count ?g = Suc (empty_count g)"
    by (rule empty_count_clear [OF Cons.prems(1) ij nz])
  ultimately show ?case unfolding x remove_cells_Cons by simp
qed

text \<open>A puzzle cut out of a solution is a valid set of clues that the solution extends.\<close>

lemma remove_cells_valid:
  assumes "solution G"
  shows "valid_clues (remove_cells G cs)" and "extends G (remove_cells G cs)"
proof -
  note s = solutionD [OF assms]
  let ?p = "remove_cells G cs"
  have w: "wf_grid ?p" by (rule remove_cells_wf [OF s(1)])
  have n: "?p ! a ! c = (if (a, c) \<in> set cs then 0 else G ! a ! c)" if "a < 9" "c < 9" for a c
    by (rule remove_cells_nth [OF s(1) that])
  have z: "?p ! a ! c = 0 \<or> ?p ! a ! c = G ! a ! c" if "a < 9" "c < 9" for a c
    using n [OF that] by auto
  have le: "?p ! a ! c \<le> 9" if "a < 9" "c < 9" for a c
    using z [OF that] s(3) [OF that] by auto
  have r: "list_all (list_all (\<lambda>x. x \<le> 9)) ?p"
    by (rule grid_list_all [OF w]) (rule le)
  have nc: "no_conflict ?p"
  proof (rule no_conflictI)
    fix a c p q :: nat
    assume h: "a < 9" "c < 9" "p < 9" "q < 9" "?p ! a ! c \<noteq> 0" "\<not> (a = p \<and> c = q)"
      "shares_unit (a, c) (p, q)"
    have e: "?p ! a ! c = G ! a ! c" using z [OF h(1) h(2)] h(5) by simp
    have g: "G ! a ! c \<noteq> 0" using e h(5) by simp
    have d: "G ! p ! q \<noteq> G ! a ! c"
      by (rule no_conflictD [OF s(2) h(1) h(2) h(3) h(4) g h(6) h(7)])
    show "?p ! p ! q \<noteq> ?p ! a ! c" using z [OF h(3) h(4)] d g unfolding e by auto
  qed
  show "valid_clues ?p" unfolding valid_clues_def by (intro conjI w r nc)
  show "extends G ?p" unfolding extends_iff
  proof (intro allI impI)
    fix a c :: nat assume h: "a < 9" "c < 9"
    show "?p ! a ! c = 0 \<or> G ! a ! c = ?p ! a ! c" using z [OF h] by auto
  qed
qed

text \<open>A solve of the solver built from valid clues that some solution extends.\<close>

lemma solve_clues:
  assumes "valid_clues g" "solution G" "extends G g"
  shows "\<exists>r s'. solve_with_visualization v (SudokuSolver g) = Some (Some r, s') \<and>
           r = sudoku s' \<and> consistent s' \<and> is_solved s' \<and> solution r \<and> complete_grid r"
proof -
  note c = SudokuSolver_consistent [OF assms(1)]
  have w: "wf_solver (SudokuSolver g)" by (rule consistentD(1) [OF c(1)])
  obtain r s' where e: "solve_with_visualization v (SudokuSolver g) = Some (r, s')"
    using solve_total [OF w] by blast
  have ex: "extends G (sudoku (SudokuSolver g))" unfolding c(2) by (rule assms(3))
  have "r \<noteq> None" by (rule solve_complete [OF e c(1) assms(2) ex])
  then obtain x where x: "r = Some x" by (cases r) auto
  note k = solve_consistent [OF e c(1)]
  have xs: "x = sudoku s' \<and> is_solved s'" by (rule k(2) [OF x])
  note cs = consistent_solved [OF k(1) conjunct2 [OF xs]]
  show ?thesis
    using e x xs k(1) cs by simp
qed

lemma valid_clues_empty: "valid_clues (replicate 9 (replicate 9 0))"
  unfolding valid_clues_def
proof (intro conjI)
  show "wf_grid (replicate 9 (replicate 9 0))" by (simp add: wf_grid_def list_all_length)
  show "list_all (list_all (\<lambda>x. x \<le> 9)) (replicate 9 (replicate 9 (0::nat)))"
    by (simp add: list_all_length)
  show "no_conflict (replicate 9 (replicate 9 0))" by (rule no_conflictI) simp
qed

lemma extends_empty: "extends G (replicate 9 (replicate 9 0))"
  by (simp add: extends_iff)

text \<open>
  The first solve of a generation attempt completes the empty grid, and the re-solve of
  the puzzle cut out of that grid returns a grid as well: the attempt is accepted.
\<close>

lemma generation_attempt_accepted:
  "\<exists>G s. solve_with_visualization False (SudokuSolver (replicate 9 (replicate 9 0))) = Some (Some G, s) \<and>
      G = sudoku s \<and> solution G \<and> complete_grid G \<and>
      (\<forall>d cells. generation_attempt d cells =
                   Some (remove_cells G (take (remove_count d) cells), True))"
proof -
  obtain G s where a:
    "solve_with_visualization False (SudokuSolver (replicate 9 (replicate 9 0))) = Some (Some G, s)"
    "G = sudoku s" "solution G" "complete_grid G"
    using solve_clues [OF valid_clues_empty solution_example extends_empty, of False] by blast
  have "generation_attempt d cells = Some (remove_cells G (take (remove_count d) cells), True)"
    for d cells
  proof -
    let ?p = "remove_cells G (take (remove_count d) cells)"
    note v = remove_cells_valid [OF a(3), of "take (remove_count d) cells"]
    obtain r t where b: "solve_with_visualization False (SudokuSolver ?p) = Some (Some r, t)"
      using solve_clues [OF v(1) a(3) v(2), of False] by blast
    show ?thesis
      unfolding generation_attempt_def a(1) by (simp add: a(2) [symmetric] b)
  qed
  then show ?thesis using a by blast
qed

lemma generate_loop_first:
  assumes "generation_attempt d (sh t) = Some (p, True)" "t < m"
  shows "generate_loop d m sh t = Some (Inr p)"
  using assms by (subst generate_loop.simps) simp

lemma generate_loop_exhausted: "\<not> t < m \<Longrightarrow> generate_loop d m sh t = Some (Inl GenerationFailed)"
  by (subst generate_loop.simps) simp

lemma get_settings_cases:
  "get_settings difficulty = (3 / 10, 30) \<or> get_settings difficulty = (1 / 2, 40) \<or>
   get_settings difficulty = (7 / 10, 50) \<or> get_settings difficulty = (4 / 5, 60)"
  by (simp add: get_settings_def difficulty_settings_def)

lemma get_settings_values:
  "get_settings ''easy'' = (3 / 10, 30)" "get_settings ''medium'' = (1 / 2, 40)"
  "get_settings ''hard'' = (7 / 10, 50)" "get_settings ''expert'' = (4 / 5, 60)"
  by (simp_all add: get_settings_def difficulty_settings_def)

lemma remove_count_values:
  "remove_count (3 / 10) = 24" "remove_count (1 / 2) = 40"
  "remove_count (7 / 10) = 56" "remove_count (4 / 5) = 64"
proof -
  have "\<lfloor>81 * (3 / 10 :: rat)\<rfloor> = 24" by (rule floor_unique) simp_all
  then show "remove_count (3 / 10) = 24" by (simp add: remove_count_def)
  have "\<lfloor>81 * (1 / 2 :: rat)\<rfloor> = 40" by (rule floor_unique) simp_all
  then show "remove_count (1 / 2) = 40" by (simp add: remove_count_def)
  have "\<lfloor>81 * (7 / 10 :: rat)\<rfloor> = 56" by (rule floor_unique) simp_all
  then show "remove_count (7 / 10) = 56" by (simp add: remove_count_def)
  have "\<lfloor>81 * (4 / 5 :: rat)\<rfloor> = 64" by (rule floor_unique) simp_all
  then show "remove_count (4 / 5) = 64" by (simp add: remove_count_def)
qed

lemma round_expert: "round (81 * (4 / 5 :: rat)) = 65"
  unfolding round_def by (rule floor_unique) simp_all

section \<open>Claims about the search\<close>

lemma valid_clues_row0: "valid_clues row0"
  by code_simp

lemma wf_empty_solver: "wf_solver (SudokuSolver (replicate 9 (replicate 9 0)))"
  unfolding SudokuSolver_empty by (rule wf_fresh_solver)

lemma not_solved_empty: "\<not> is_solved (SudokuSolver (replicate 9 (replicate 9 0)))"
  unfolding SudokuSolver_empty by (simp add: is_solved_def empty_count_def fresh_solver_def)


text \<open>
  C3 (as the code has it). \<^verbatim>\<open>advanced_backtrack\<close>, the search of the non-streaming mode,
  has no statement that changes \<^verbatim>\<open>attempts\<close>: a solve with \<^verbatim>\<open>visualize=False\<close> returns
  with the counter at the 0 that \<^verbatim>\<open>solve_with_visualization\<close> wrote, although the search
  was entered at least once. \<^verbatim>\<open>advanced_backtrack_visualize\<close> adds one on entry, so a
  solve with \<^verbatim>\<open>visualize=True\<close> returns with a counter of at least 1.
\<close>

theorem advanced_backtrack_attempts:
  assumes "wf_solver s"
  shows "(\<exists>r s'. solve_with_visualization False s = Some (r, s') \<and> attempts s' = 0) \<and>
         (\<exists>r s'. solve_with_visualization True s = Some (r, s') \<and> 1 \<le> attempts s')"
proof
  obtain r s' where e: "solve_with_visualization False s = Some (r, s')"
    using solve_total [OF assms] by blast
  have "backtrack_frames (Enter (s\<lparr>attempts := 0, backtrack_count := 0\<rparr>)) = Some (r, s')"
    using e by (simp add: solve_frames)
  from backtrack_frames_effect [OF this] have "attempts s' = 0" by simp
  then show "\<exists>r s'. solve_with_visualization False s = Some (r, s') \<and> attempts s' = 0"
    using e by blast
next
  obtain r s' where e: "solve_with_visualization True s = Some (r, s')"
    using solve_total [OF assms] by blast
  have "visualize_frames (Enter (s\<lparr>attempts := 0, backtrack_count := 0\<rparr>)) = Some (r, s')"
    using e by (simp add: solve_frames)
  from visualize_frames_effect [OF this] have "1 \<le> attempts s'" by simp
  then show "\<exists>r s'. solve_with_visualization True s = Some (r, s') \<and> 1 \<le> attempts s'"
    using e by blast
qed

theorem advanced_backtrack_attempts_witness:
  "\<not> is_solved (SudokuSolver (replicate 9 (replicate 9 0))) \<and>
   (\<exists>g s'. solve_with_visualization False (SudokuSolver (replicate 9 (replicate 9 0))) = Some (Some g, s') \<and>
      complete_grid g \<and> attempts s' = 0) \<and>
   (\<exists>r s'. solve_with_visualization True (SudokuSolver (replicate 9 (replicate 9 0))) = Some (r, s') \<and>
      1 \<le> attempts s')"
proof -
  obtain g t where a:
    "solve_with_visualization False (SudokuSolver (replicate 9 (replicate 9 0))) = Some (Some g, t)"
    "complete_grid g"
    using solve_clues [OF valid_clues_empty solution_example extends_empty, of False] by blast
  note w = advanced_backtrack_attempts [OF wf_empty_solver]
  have "attempts t = 0" using conjunct1 [OF w] a(1) by auto
  then have "\<exists>g s'. solve_with_visualization False (SudokuSolver (replicate 9 (replicate 9 0))) = Some (Some g, s') \<and>
      complete_grid g \<and> attempts s' = 0"
    using a by blast
  then show ?thesis using not_solved_empty conjunct2 [OF w] by blast
qed

text \<open>
  C4. For clues that form a 9x9 grid of entries 0..9 in which no digit is repeated in a
  row, a column or a box, every state the engine passes through (the constructed solver,
  a guarded speculative placement, a forced placement of \<^verbatim>\<open>trivial_moves\<close>, a restored
  snapshot, a change of the counters) has a grid in which no filled cell shares its
  digit with another cell of its row, its column or its box; and a solve, in either mode,
  returns in such a state.
\<close>

theorem engine_uniqueness_invariant:
  assumes "valid_clues g"
  shows "(\<forall>s. engine_state g s \<longrightarrow> no_conflict (sudoku s)) \<and>
         (\<forall>v. \<exists>r s'. solve_with_visualization v (SudokuSolver g) = Some (r, s') \<and>
                 engine_state g s' \<and> no_conflict (sudoku s'))"
proof (intro conjI allI impI)
  fix s assume "engine_state g s"
  then have "consistent s" by (rule engine_state_consistent [OF _ assms])
  then show "no_conflict (sudoku s)" by (rule consistentD(6))
next
  fix v
  have c: "consistent (SudokuSolver g)" by (rule SudokuSolver_consistent(1) [OF assms])
  have w: "wf_solver (SudokuSolver g)" by (rule consistentD(1) [OF c])
  obtain r s' where e: "solve_with_visualization v (SudokuSolver g) = Some (r, s')"
    using solve_total [OF w] by blast
  have en: "engine_state g s'" by (rule solve_engine [OF e engine_state.constructed])
  have "consistent s'" by (rule engine_state_consistent [OF en assms])
  then have "no_conflict (sudoku s')" by (rule consistentD(6))
  then show "\<exists>r s'. solve_with_visualization v (SudokuSolver g) = Some (r, s') \<and>
                 engine_state g s' \<and> no_conflict (sudoku s')"
    using e en by blast
qed

theorem engine_uniqueness_invariant_witness:
  "valid_clues row0 \<and>
   can_place_number (SudokuSolver row0) 1 0 4 \<and>
   engine_state row0 (place_number (SudokuSolver row0) 1 0 4) \<and>
   sudoku (place_number (SudokuSolver row0) 1 0 4) ! 1 ! 0 = 4 \<and>
   no_conflict (sudoku (place_number (SudokuSolver row0) 1 0 4)) \<and>
   (\<exists>r s'. solve_with_visualization False (SudokuSolver row0) = Some (r, s') \<and>
      engine_state row0 s' \<and> no_conflict (sudoku s'))"
proof -
  have p: "can_place_number (SudokuSolver row0) 1 0 4" by code_simp
  have e: "engine_state row0 (place_number (SudokuSolver row0) 1 0 4)"
    by (rule engine_state.speculative [OF engine_state.constructed _ _ _ _ p]) simp_all
  have v: "sudoku (place_number (SudokuSolver row0) 1 0 4) ! 1 ! 0 = 4" by code_simp
  note t = engine_uniqueness_invariant [OF valid_clues_row0]
  have "no_conflict (sudoku (place_number (SudokuSolver row0) 1 0 4))"
    using conjunct1 [OF t] e by blast
  moreover have "\<exists>r s'. solve_with_visualization False (SudokuSolver row0) = Some (r, s') \<and>
      engine_state row0 s' \<and> no_conflict (sudoku s')"
    using conjunct2 [OF t] by blast
  ultimately show ?thesis using valid_clues_row0 p e v by blast
qed

text \<open>
  C5. The non-streaming solve of the solver built from the all-zeros grid returns, its
  result is a grid (not \<^verbatim>\<open>None\<close>), the grid of the solver itself, and every row, every
  column and every 3x3 box of it is exactly the set of the digits 1..9.
\<close>

theorem solve_empty_grid_complete:
  "\<exists>g s'. solve_with_visualization False (SudokuSolver (replicate 9 (replicate 9 0))) = Some (Some g, s') \<and>
     g = sudoku s' \<and> complete_grid g"
  using solve_clues [OF valid_clues_empty solution_example extends_empty, of False] by blast

end
